theory Spec2Isabelle
  imports Complex_Main "HOL-Library.Product_Lexorder" "HOL-Library.Multiset"
begin

section \<open>The tree store\<close>

text \<open>
  \<^verbatim>\<open>template<class weight_type> struct tree\<close>: the number of vertices and the adjacency
  list. Vertices are C++ \<^verbatim>\<open>int\<close>s, numbered from 1; they are modelled by \<^typ>\<open>int\<close>.
  The vectors that the code indexes by a vertex
  (\<^verbatim>\<open>con\<close>, \<^verbatim>\<open>D\<close>, \<^verbatim>\<open>ancestors\<close>, \<^verbatim>\<open>assignment\<close>) are
  modelled as functions of the vertex, zero or empty where the vector is value-initialised.
  The two vectors whose bounds are the subject of a claim, \<^verbatim>\<open>distances\<close> and \<^verbatim>\<open>f\<close>, keep
  their sizes. The fields are called \<open>tree_n\<close> and \<open>tree_con\<close> for the members
  \<^verbatim>\<open>n\<close> and \<^verbatim>\<open>con\<close>.
\<close>

record 'w tree =
  tree_n :: int
  tree_con :: "int \<Rightarrow> (int \<times> 'w) list"

text \<open>
  The C++ type \<^verbatim>\<open>int\<close> has 32 bits. The source forms an \<^verbatim>\<open>int\<close> by arithmetic on
  its inputs in two places: the product \<^verbatim>\<open>k * C\<close> of the assertion, and the sum
  \<^verbatim>\<open>d + v.snd\<close> of the traversal of \<^verbatim>\<open>tree<int>\<close>. A result outside the type wraps
  around in the build (the language leaves it undefined); \<open>wrap32\<close> is the value that
  is stored, and \<open>int_range\<close> holds of the results that do not wrap.
\<close>

definition wrap32 :: "int \<Rightarrow> int" where
  "wrap32 x = (x + 2 ^ 31) mod 2 ^ 32 - 2 ^ 31"

definition int_range :: "int \<Rightarrow> bool" where
  "int_range x \<longleftrightarrow> - (2 ^ 31) \<le> x \<and> x < 2 ^ 31"

definition tree_new :: "int \<Rightarrow> 'w tree" where
  "tree_new k = \<lparr>tree_n = k, tree_con = (\<lambda>_. [])\<rparr>"

definition add_edge :: "int \<Rightarrow> int \<Rightarrow> 'w \<Rightarrow> 'w tree \<Rightarrow> 'w tree" where
  "add_edge node1 node2 W t =
     (let c1 = (tree_con t)(node1 := tree_con t node1 @ [(node2, W)]);
          c2 = c1(node2 := c1 node2 @ [(node1, W)])
      in t\<lparr>tree_con := c2\<rparr>)"

section \<open>Precomputation of the distances\<close>

text \<open>
  The tables that \<^verbatim>\<open>k_centers\<close> fills before the search:
  \<^verbatim>\<open>vector<vector<int>> D\<close>, \<^verbatim>\<open>vector<vector<int>> ancestors\<close> and
  \<^verbatim>\<open>vector<weight_type> distances\<close>. The entries of \<^verbatim>\<open>D\<close> are \<^verbatim>\<open>int\<close>, whatever
  the weight type is.
\<close>

record 'w tables =
  D_tab :: "int \<Rightarrow> int \<Rightarrow> int"
  ancestors :: "int \<Rightarrow> int list"
  distances :: "'w list"

definition root_vertex :: int where
  "root_vertex = 1"

definition tables_init :: "'w tables" where
  "tables_init = \<lparr>D_tab = (\<lambda>_ _. 0), ancestors = (\<lambda>_. []), distances = []\<rparr>"

text \<open>
  The body of the lambda \<^verbatim>\<open>dfs\<close> before its loop over the neighbours. The parameter
  \<open>cv\<close> is the conversion from the weight type to \<^verbatim>\<open>int\<close> that the store into
  \<^verbatim>\<open>D[beg][s]\<close> performs. For \<^verbatim>\<open>tree<int>\<close> the weights are modelled by
  \<^typ>\<open>int\<close> and \<open>cv\<close> is \<open>wrap32\<close>: it changes no value of the type and wraps the
  sum that the caller formed. The identity as \<open>cv\<close> is \<^verbatim>\<open>tree<int>\<close> on the runs in
  which no sum leaves the type.
\<close>

definition visit :: "('w \<Rightarrow> int) \<Rightarrow> int \<Rightarrow> int \<Rightarrow> int \<Rightarrow> 'w \<Rightarrow> 'w tables \<Rightarrow> 'w tables" where
  "visit cv beg s p d tb =
     (let tb1 = tb\<lparr>D_tab := (D_tab tb)(beg := (D_tab tb beg)(s := cv d))\<rparr>;
          tb2 = (if beg = root_vertex
                 then tb1\<lparr>ancestors := (ancestors tb1)
                        (s := (if p \<noteq> - 1 then ancestors tb1 p else ancestors tb1 s) @ [s])\<rparr>
                 else tb1)
      in if beg < s then tb2\<lparr>distances := distances tb2 @ [d]\<rparr> else tb2)"

text \<open>
  The recursive lambda \<^verbatim>\<open>dfs\<close>. It is held in a
  \<^verbatim>\<open>function<void(int, int, int, int)>\<close>, so the fourth argument of every call,
  \<^verbatim>\<open>d + v.snd\<close>, is converted to \<^verbatim>\<open>int\<close> and back to the weight type before the body
  sees it: \<open>of_int (cv (d + w))\<close>. The source recursion has no bound; the first argument
  of the model bounds its depth, and \<open>None\<close> is a recursion that went deeper.
\<close>

fun dfs :: "('w::linordered_idom \<Rightarrow> int) \<Rightarrow> nat \<Rightarrow> 'w tree \<Rightarrow> int \<Rightarrow> int \<Rightarrow> int \<Rightarrow> 'w
              \<Rightarrow> 'w tables \<Rightarrow> 'w tables option"
  and dfs_children :: "('w::linordered_idom \<Rightarrow> int) \<Rightarrow> nat \<Rightarrow> 'w tree \<Rightarrow> int \<Rightarrow> int \<Rightarrow> int \<Rightarrow> 'w
              \<Rightarrow> (int \<times> 'w) list \<Rightarrow> 'w tables \<Rightarrow> 'w tables option"
  where
  "dfs cv 0 t beg s p d tb = None"
| "dfs cv (Suc fuel) t beg s p d tb =
     dfs_children cv fuel t beg s p d (tree_con t s) (visit cv beg s p d tb)"
| "dfs_children cv fuel t beg s p d [] tb = Some tb"
| "dfs_children cv fuel t beg s p d (v # vs) tb =
     (if fst v \<noteq> p
      then (case dfs cv fuel t beg (fst v) s (of_int (cv (d + snd v))) tb of
              None \<Rightarrow> None
            | Some tb' \<Rightarrow> dfs_children cv fuel t beg s p d vs tb')
      else dfs_children cv fuel t beg s p d vs tb)"

text \<open>The loop \<^verbatim>\<open>for(int i = 1; i <= n; i++) dfs(i, i, -1, 0)\<close>.\<close>

fun dfs_all :: "('w::linordered_idom \<Rightarrow> int) \<Rightarrow> nat \<Rightarrow> 'w tree \<Rightarrow> int list \<Rightarrow> 'w tables
                  \<Rightarrow> 'w tables option" where
  "dfs_all cv fuel t [] tb = Some tb"
| "dfs_all cv fuel t (i # is) tb =
     (case dfs cv fuel t i i (- 1) 0 tb of
        None \<Rightarrow> None
      | Some tb' \<Rightarrow> dfs_all cv fuel t is tb')"

definition precompute :: "('w::linordered_idom \<Rightarrow> int) \<Rightarrow> nat \<Rightarrow> 'w tree \<Rightarrow> 'w tables option" where
  "precompute cv fuel t =
     (case dfs_all cv fuel t [1..tree_n t] tables_init of
        None \<Rightarrow> None
      | Some tb \<Rightarrow> Some (tb\<lparr>distances := sort (distances tb)\<rparr>))"

section \<open>The feasibility check\<close>

datatype error = Assertion_failed | Index_out_of_range | Empty_set_deref | Recursion_too_deep

subsection \<open>The contract of the sort\<close>

text \<open>
  \<^verbatim>\<open>std::sort\<close> is library code: the functions of the model take it as the parameter
  \<open>srt\<close>, a function of the comparison and the list. Its contract for the comparison
  that \<^verbatim>\<open>check\<close> passes (a key compared with \<^verbatim>\<open>>\<close>) is \<open>std_sort_ok\<close>: the result
  is a permutation of the argument in which no element is followed by one that the
  comparison puts before it. The contract does not fix the order of equivalent elements;
  that order is the one of the library that the program is built with.
\<close>

definition std_sort_ok :: "((int \<Rightarrow> int \<Rightarrow> bool) \<Rightarrow> int list \<Rightarrow> int list) \<Rightarrow> bool" where
  "std_sort_ok srt \<longleftrightarrow>
     (\<forall>(key :: int \<Rightarrow> int) xs.
        mset (srt (\<lambda>i j. key i > key j) xs) = mset xs \<and>
        sorted_wrt (\<lambda>a b. \<not> key b > key a) (srt (\<lambda>i j. key i > key j) xs))"

text \<open>An insertion sort that keeps the order of equivalent elements.\<close>

fun insert_by :: "('a \<Rightarrow> 'a \<Rightarrow> bool) \<Rightarrow> 'a \<Rightarrow> 'a list \<Rightarrow> 'a list" where
  "insert_by lt x [] = [x]"
| "insert_by lt x (y # ys) = (if lt y x then y # insert_by lt x ys else x # y # ys)"

fun sort_stable :: "('a \<Rightarrow> 'a \<Rightarrow> bool) \<Rightarrow> 'a list \<Rightarrow> 'a list" where
  "sort_stable lt [] = []"
| "sort_stable lt (x # xs) = insert_by lt x (sort_stable lt xs)"

subsection \<open>The sort of the GNU C++ library\<close>

text \<open>
  \<^verbatim>\<open>std::sort\<close> as the GNU C++ library has it (\<^verbatim>\<open>bits/stl_algo.h\<close> and
  \<^verbatim>\<open>bits/stl_heap.h\<close>): \<^verbatim>\<open>__introsort_loop\<close> partitions the ranges of more than 16
  elements around the median of three, with a heap sort when the depth limit is used up,
  and \<^verbatim>\<open>__final_insertion_sort\<close> finishes with an insertion sort. The functions keep
  the names of the library without the underscores in front. The vector is a list, an
  iterator is a position in it, and \<open>lt\<close> is the comparison. The scans that the
  library leaves unguarded stop inside the range for every strict weak ordering; in the
  model they stop at the ends of the list at the latest.
\<close>

definition iter_swap :: "nat \<Rightarrow> nat \<Rightarrow> 'a list \<Rightarrow> 'a list" where
  "iter_swap i j a = a[i := a ! j, j := a ! i]"

definition move_median_to_first :: "('a \<Rightarrow> 'a \<Rightarrow> bool) \<Rightarrow> nat \<Rightarrow> nat \<Rightarrow> nat \<Rightarrow> nat \<Rightarrow> 'a list \<Rightarrow> 'a list" where
  "move_median_to_first lt result ia ib ic a =
     (if lt (a ! ia) (a ! ib)
      then (if lt (a ! ib) (a ! ic) then iter_swap result ib a
            else if lt (a ! ia) (a ! ic) then iter_swap result ic a
            else iter_swap result ia a)
      else if lt (a ! ia) (a ! ic) then iter_swap result ia a
      else if lt (a ! ib) (a ! ic) then iter_swap result ic a
      else iter_swap result ib a)"

function scan_up :: "('a \<Rightarrow> 'a \<Rightarrow> bool) \<Rightarrow> nat \<Rightarrow> 'a list \<Rightarrow> nat \<Rightarrow> nat" where
  "scan_up lt pivot a first =
     (if first < length a \<and> lt (a ! first) (a ! pivot) then scan_up lt pivot a (first + 1) else first)"
  by pat_completeness auto
termination
  by (relation "measure (\<lambda>(lt, pivot, a, first). length a - first)") auto

fun scan_down :: "('a \<Rightarrow> 'a \<Rightarrow> bool) \<Rightarrow> nat \<Rightarrow> 'a list \<Rightarrow> nat \<Rightarrow> nat" where
  "scan_down lt pivot a 0 = 0"
| "scan_down lt pivot a (Suc lst) =
     (if lt (a ! pivot) (a ! Suc lst) then scan_down lt pivot a lst else Suc lst)"

function unguarded_partition :: "('a \<Rightarrow> 'a \<Rightarrow> bool) \<Rightarrow> nat \<Rightarrow> nat \<Rightarrow> nat \<Rightarrow> 'a list \<Rightarrow> nat \<times> 'a list" where
  "unguarded_partition lt first lst pivot a =
     (let first1 = scan_up lt pivot a first;
          lst1 = scan_down lt pivot a (lst - 1)
      in if \<not> first1 < lst1 then (first1, a)
         else unguarded_partition lt (first1 + 1) lst1 pivot (iter_swap first1 lst1 a))"
  by pat_completeness auto
termination
proof (relation "measure (\<lambda>(lt, first, lst, pivot, a). lst)")
  show "wf (measure (\<lambda>(lt :: 'a \<Rightarrow> 'a \<Rightarrow> bool, first :: nat, lst :: nat, pivot :: nat, a :: 'a list). lst))"
    by simp
next
  fix lt :: "'a \<Rightarrow> 'a \<Rightarrow> bool" and first lst pivot :: nat and a :: "'a list" and x xa :: nat
  assume x: "x = scan_up lt pivot a first" and xa: "xa = scan_down lt pivot a (lst - 1)"
    and c: "\<not> \<not> x < xa"
  have le: "scan_down lt pivot a j \<le> j" for j by (induction j) auto
  from c le[of "lst - 1"] xa have "xa < lst" by (cases lst) auto
  then show "((lt, x + 1, xa, pivot, iter_swap x xa a), lt, first, lst, pivot, a)
       \<in> measure (\<lambda>(lt, first, lst, pivot, a). lst)" by simp
qed

definition unguarded_partition_pivot :: "('a \<Rightarrow> 'a \<Rightarrow> bool) \<Rightarrow> nat \<Rightarrow> nat \<Rightarrow> 'a list \<Rightarrow> nat \<times> 'a list" where
  "unguarded_partition_pivot lt first lst a =
     (let mid = first + (lst - first) div 2
      in unguarded_partition lt (first + 1) lst first
           (move_median_to_first lt first (first + 1) mid (lst - 1) a))"

function push_heap :: "('a \<Rightarrow> 'a \<Rightarrow> bool) \<Rightarrow> nat \<Rightarrow> nat \<Rightarrow> nat \<Rightarrow> 'a \<Rightarrow> 'a list \<Rightarrow> 'a list" where
  "push_heap lt first holeIndex topIndex val a =
     (let parent = (holeIndex - 1) div 2
      in if holeIndex > topIndex \<and> lt (a ! (first + parent)) val
         then push_heap lt first parent topIndex val (a[first + holeIndex := a ! (first + parent)])
         else a[first + holeIndex := val])"
  by pat_completeness auto
termination
  by (relation "measure (\<lambda>(lt, first, holeIndex, topIndex, val, a). holeIndex)") auto

function adjust_loop :: "('a \<Rightarrow> 'a \<Rightarrow> bool) \<Rightarrow> nat \<Rightarrow> nat \<Rightarrow> nat \<Rightarrow> nat \<Rightarrow> 'a list \<Rightarrow> nat \<times> nat \<times> 'a list" where
  "adjust_loop lt first len holeIndex secondChild a =
     (if secondChild < (len - 1) div 2
      then (let sc = 2 * (secondChild + 1);
                sc1 = (if lt (a ! (first + sc)) (a ! (first + (sc - 1))) then sc - 1 else sc)
            in adjust_loop lt first len sc1 sc1 (a[first + holeIndex := a ! (first + sc1)]))
      else (holeIndex, secondChild, a))"
  by pat_completeness auto
termination
  by (relation "measure (\<lambda>(lt, first, len, holeIndex, secondChild, a). len - secondChild)") auto

definition adjust_heap :: "('a \<Rightarrow> 'a \<Rightarrow> bool) \<Rightarrow> nat \<Rightarrow> nat \<Rightarrow> nat \<Rightarrow> 'a \<Rightarrow> 'a list \<Rightarrow> 'a list" where
  "adjust_heap lt first holeIndex len val a =
     (let (hole1, sc1, a1) = adjust_loop lt first len holeIndex holeIndex a
      in if even len \<and> int sc1 = (int len - 2) div 2
         then push_heap lt first (2 * (sc1 + 1) - 1) holeIndex val
                (a1[first + hole1 := a1 ! (first + (2 * (sc1 + 1) - 1))])
         else push_heap lt first hole1 holeIndex val a1)"

fun make_heap_loop :: "('a \<Rightarrow> 'a \<Rightarrow> bool) \<Rightarrow> nat \<Rightarrow> nat \<Rightarrow> nat \<Rightarrow> 'a list \<Rightarrow> 'a list" where
  "make_heap_loop lt first len 0 a = adjust_heap lt first 0 len (a ! first) a"
| "make_heap_loop lt first len (Suc parent) a =
     make_heap_loop lt first len parent (adjust_heap lt first (Suc parent) len (a ! (first + Suc parent)) a)"

definition make_heap :: "('a \<Rightarrow> 'a \<Rightarrow> bool) \<Rightarrow> nat \<Rightarrow> nat \<Rightarrow> 'a list \<Rightarrow> 'a list" where
  "make_heap lt first lst a =
     (if lst - first < 2 then a else make_heap_loop lt first (lst - first) ((lst - first - 2) div 2) a)"

definition pop_heap :: "('a \<Rightarrow> 'a \<Rightarrow> bool) \<Rightarrow> nat \<Rightarrow> nat \<Rightarrow> nat \<Rightarrow> 'a list \<Rightarrow> 'a list" where
  "pop_heap lt first lst result a = adjust_heap lt first 0 (lst - first) (a ! result) (a[result := a ! first])"

definition heap_select :: "('a \<Rightarrow> 'a \<Rightarrow> bool) \<Rightarrow> nat \<Rightarrow> nat \<Rightarrow> nat \<Rightarrow> 'a list \<Rightarrow> 'a list" where
  "heap_select lt first middle lst a =
     fold (\<lambda>i a. if lt (a ! i) (a ! first) then pop_heap lt first middle i a else a) [middle..<lst]
       (make_heap lt first middle a)"

function sort_heap :: "('a \<Rightarrow> 'a \<Rightarrow> bool) \<Rightarrow> nat \<Rightarrow> nat \<Rightarrow> 'a list \<Rightarrow> 'a list" where
  "sort_heap lt first lst a =
     (if lst - first > 1 then sort_heap lt first (lst - 1) (pop_heap lt first (lst - 1) (lst - 1) a) else a)"
  by pat_completeness auto
termination
  by (relation "measure (\<lambda>(lt, first, lst, a). lst)") auto

definition partial_sort :: "('a \<Rightarrow> 'a \<Rightarrow> bool) \<Rightarrow> nat \<Rightarrow> nat \<Rightarrow> nat \<Rightarrow> 'a list \<Rightarrow> 'a list" where
  "partial_sort lt first middle lst a = sort_heap lt first middle (heap_select lt first middle lst a)"

fun introsort_loop :: "('a \<Rightarrow> 'a \<Rightarrow> bool) \<Rightarrow> nat \<Rightarrow> nat \<Rightarrow> nat \<Rightarrow> 'a list \<Rightarrow> 'a list" where
  "introsort_loop lt first lst 0 a =
     (if lst - first > 16 then partial_sort lt first lst lst a else a)"
| "introsort_loop lt first lst (Suc depth_limit) a =
     (if lst - first > 16
      then (let (cut, a1) = unguarded_partition_pivot lt first lst a
            in introsort_loop lt first cut depth_limit (introsort_loop lt cut lst depth_limit a1))
      else a)"

fun unguarded_linear_insert :: "('a \<Rightarrow> 'a \<Rightarrow> bool) \<Rightarrow> 'a \<Rightarrow> nat \<Rightarrow> 'a list \<Rightarrow> 'a list" where
  "unguarded_linear_insert lt val 0 a = a[0 := val]"
| "unguarded_linear_insert lt val (Suc next) a =
     (if lt val (a ! next) then unguarded_linear_insert lt val next (a[Suc next := a ! next])
      else a[Suc next := val])"

definition insertion_step :: "('a \<Rightarrow> 'a \<Rightarrow> bool) \<Rightarrow> nat \<Rightarrow> nat \<Rightarrow> 'a list \<Rightarrow> 'a list" where
  "insertion_step lt first i a =
     (if lt (a ! i) (a ! first)
      then take first a @ a ! i # take (i - first) (drop first a) @ drop (Suc i) a
      else unguarded_linear_insert lt (a ! i) i a)"

definition insertion_sort :: "('a \<Rightarrow> 'a \<Rightarrow> bool) \<Rightarrow> nat \<Rightarrow> nat \<Rightarrow> 'a list \<Rightarrow> 'a list" where
  "insertion_sort lt first lst a =
     (if first = lst then a else fold (insertion_step lt first) [first + 1..<lst] a)"

definition unguarded_insertion_sort :: "('a \<Rightarrow> 'a \<Rightarrow> bool) \<Rightarrow> nat \<Rightarrow> nat \<Rightarrow> 'a list \<Rightarrow> 'a list" where
  "unguarded_insertion_sort lt first lst a =
     fold (\<lambda>i a. unguarded_linear_insert lt (a ! i) i a) [first..<lst] a"

definition final_insertion_sort :: "('a \<Rightarrow> 'a \<Rightarrow> bool) \<Rightarrow> nat \<Rightarrow> nat \<Rightarrow> 'a list \<Rightarrow> 'a list" where
  "final_insertion_sort lt first lst a =
     (if lst - first > 16
      then unguarded_insertion_sort lt (first + 16) lst (insertion_sort lt first (first + 16) a)
      else insertion_sort lt first lst a)"

fun lg :: "nat \<Rightarrow> nat" where
  "lg n = (if n < 2 then 0 else Suc (lg (n div 2)))"

definition gnu_sort :: "('a \<Rightarrow> 'a \<Rightarrow> bool) \<Rightarrow> 'a list \<Rightarrow> 'a list" where
  "gnu_sort lt a =
     (if a = [] then a
      else final_insertion_sort lt 0 (length a) (introsort_loop lt 0 (length a) (lg (length a) * 2) a))"

subsection \<open>The loops of the check\<close>

text \<open>
  The first loop of \<^verbatim>\<open>check\<close>. For the vertex \<open>i\<close> it scans \<^verbatim>\<open>ancestors[i]\<close> for the
  first \<open>it\<close> with \<^verbatim>\<open>d_i - D[root][it] <= radius\<close>, stores \<^verbatim>\<open>f[i] = it\<close> and inserts
  \<^verbatim>\<open>{-D[root][it], i}\<close> into the set \<^verbatim>\<open>st\<close>. The vector \<^verbatim>\<open>f\<close> is written and never
  read, so the model keeps the sequence of its stores (index, value) instead of its
  contents. The store \<^verbatim>\<open>f[n]\<close> is past the end of the vector (\<open>f_in_bounds\<close> below),
  and the language leaves the run undefined from there on. The functions below follow the
  run in which that store damages nothing that the program reads afterwards, as it is on
  the small trees of the examples; they say nothing of a run that the store breaks. The
  set \<^verbatim>\<open>st\<close> is the ascending list of its elements, pairs in lexicographic order.
  The difference \<^verbatim>\<open>d_i - D[root][it]\<close> and the negation \<^verbatim>\<open>-D[root][it]\<close> are formed in
  the weight type from entries of \<^verbatim>\<open>D\<close>; for \<^verbatim>\<open>tree<int>\<close> they are within the type
  when the entries are not negative.
\<close>

definition covering :: "'w::linordered_idom tables \<Rightarrow> 'w \<Rightarrow> int \<Rightarrow> int option" where
  "covering tb radius i =
     (let d_i = (of_int (D_tab tb root_vertex i) :: 'w)
      in find (\<lambda>it. d_i - of_int (D_tab tb root_vertex it) \<le> radius) (ancestors tb i))"

definition init_step :: "'w::linordered_idom tables \<Rightarrow> 'w \<Rightarrow> int
     \<Rightarrow> (int \<times> int) list \<times> ('w \<times> int) list \<Rightarrow> (int \<times> int) list \<times> ('w \<times> int) list" where
  "init_step tb radius i acc =
     (case covering tb radius i of
        None \<Rightarrow> acc
      | Some it \<Rightarrow> (fst acc @ [(i, it)], insort_insert (of_int (- D_tab tb root_vertex it), i) (snd acc)))"

definition init_loop :: "'w::linordered_idom tree \<Rightarrow> 'w tables \<Rightarrow> 'w
     \<Rightarrow> (int \<times> int) list \<times> ('w \<times> int) list" where
  "init_loop t tb radius = fold (init_step tb radius) [1..tree_n t] ([], [])"

definition f_stores :: "'w::linordered_idom tree \<Rightarrow> 'w tables \<Rightarrow> 'w \<Rightarrow> (int \<times> int) list" where
  "f_stores t tb radius = fst (init_loop t tb radius)"

text \<open>\<^verbatim>\<open>vector<int> f(n)\<close>: the valid indices of \<^verbatim>\<open>f\<close> are \<open>0, \<dots>, n - 1\<close>.\<close>

definition f_in_bounds :: "'w tree \<Rightarrow> int \<Rightarrow> bool" where
  "f_in_bounds t i \<longleftrightarrow> 0 \<le> i \<and> i < tree_n t"

text \<open>
  One round of the greedy loop, after the centre is popped: the list \<^verbatim>\<open>reachable\<close>
  after the sort, its cut to \<open>C\<close> entries, and the loop that assigns and erases.
  \<^verbatim>\<open>reachable.size() > C\<close> compares a \<^verbatim>\<open>size_t\<close> with an \<^verbatim>\<open>int\<close>: \<open>C\<close> is converted to
  the unsigned type first, so a negative \<open>C\<close> becomes a number above every size and
  the comparison is false.
\<close>

definition reachable_sorted :: "((int \<Rightarrow> int \<Rightarrow> bool) \<Rightarrow> int list \<Rightarrow> int list)
     \<Rightarrow> 'w::linordered_idom tables \<Rightarrow> 'w \<Rightarrow> int \<Rightarrow> int list \<Rightarrow> int list" where
  "reachable_sorted srt tb radius center U =
     srt (\<lambda>i j. D_tab tb root_vertex i > D_tab tb root_vertex j)
         (filter (\<lambda>it. of_int (D_tab tb center it) \<le> radius) U)"

definition cap_resize :: "int \<Rightarrow> int list \<Rightarrow> int list" where
  "cap_resize C reachable =
     (if 0 \<le> C \<and> int (length reachable) > C then take (nat C) reachable else reachable)"

definition assign_all :: "int \<Rightarrow> int list \<Rightarrow> (int \<Rightarrow> int) \<times> int list \<Rightarrow> (int \<Rightarrow> int) \<times> int list" where
  "assign_all center reachable acc =
     fold (\<lambda>it (asg, U). (asg(it := center), remove1 it U)) reachable acc"

text \<open>
  The loop \<^verbatim>\<open>for(int iter = 0; !U.empty() && iter < k; iter++)\<close>. The set \<^verbatim>\<open>U\<close> is the
  ascending list of its elements. \<^verbatim>\<open>st.begin()\<close> of an empty set is the end iterator,
  and reading through it is undefined: the model returns an error there.
\<close>

fun greedy :: "((int \<Rightarrow> int \<Rightarrow> bool) \<Rightarrow> int list \<Rightarrow> int list) \<Rightarrow> 'w::linordered_idom tables
     \<Rightarrow> int \<Rightarrow> int \<Rightarrow> 'w \<Rightarrow> int \<Rightarrow> ('w \<times> int) list \<Rightarrow> int list \<Rightarrow> int list \<Rightarrow> (int \<Rightarrow> int)
     \<Rightarrow> error + (int list \<times> int list \<times> (int \<Rightarrow> int))" where
  "greedy srt tb C k radius iter [] U centers asg =
     (if U \<noteq> [] \<and> iter < k then Inl Empty_set_deref else Inr (U, centers, asg))"
| "greedy srt tb C k radius iter (e # st) U centers asg =
     (if U \<noteq> [] \<and> iter < k
      then (let center = snd e;
                reachable = cap_resize C (reachable_sorted srt tb radius center U);
                (asg', U') = assign_all center reachable (asg, U)
            in greedy srt tb C k radius (iter + 1) st U' (centers @ [center]) asg')
      else Inr (U, centers, asg))"

text \<open>
  \<^verbatim>\<open>check\<close>: the result is \<^verbatim>\<open>U.empty()\<close>, with the vectors \<^verbatim>\<open>centers\<close> (cleared by
  every call) and \<^verbatim>\<open>assignment\<close> (kept from the call before), which the lambda
  captures by reference.
\<close>

definition check :: "((int \<Rightarrow> int \<Rightarrow> bool) \<Rightarrow> int list \<Rightarrow> int list) \<Rightarrow> 'w::linordered_idom tree
     \<Rightarrow> 'w tables \<Rightarrow> int \<Rightarrow> int \<Rightarrow> 'w \<Rightarrow> (int \<Rightarrow> int)
     \<Rightarrow> error + (bool \<times> int list \<times> (int \<Rightarrow> int))" where
  "check srt t tb C k radius asg =
     (case greedy srt tb C k radius 0 (snd (init_loop t tb radius)) [1..tree_n t] [] asg of
        Inl e \<Rightarrow> Inl e
      | Inr (U, centers, asg') \<Rightarrow> Inr (U = [], centers, asg'))"

section \<open>The search for the radius\<close>

text \<open>\<^verbatim>\<open>distances[i]\<close>: the read is defined for \<open>0 \<le> i < distances.size()\<close> only.\<close>

definition at_index :: "'a list \<Rightarrow> int \<Rightarrow> error + 'a" where
  "at_index xs i = (if 0 \<le> i \<and> i < int (length xs) then Inr (xs ! nat i) else Inl Index_out_of_range)"

text \<open>The loop \<^verbatim>\<open>while(lo < hi)\<close>; it returns the final \<^verbatim>\<open>lo\<close> with the state that
  the calls of \<^verbatim>\<open>check\<close> left.\<close>

function search :: "((int \<Rightarrow> int \<Rightarrow> bool) \<Rightarrow> int list \<Rightarrow> int list) \<Rightarrow> 'w::linordered_idom tree
     \<Rightarrow> 'w tables \<Rightarrow> int \<Rightarrow> int \<Rightarrow> int \<Rightarrow> int \<Rightarrow> (int \<Rightarrow> int) \<Rightarrow> error + (int \<times> (int \<Rightarrow> int))" where
  "search srt t tb C k lo hi asg =
     (if lo < hi
      then (let mid = (lo + hi) div 2
            in case at_index (distances tb) mid of
                 Inl e \<Rightarrow> Inl e
               | Inr r \<Rightarrow>
                   (case check srt t tb C k r asg of
                      Inl e \<Rightarrow> Inl e
                    | Inr (ok, centers, asg') \<Rightarrow>
                        if ok then search srt t tb C k lo mid asg'
                        else search srt t tb C k (mid + 1) hi asg'))
      else Inr (lo, asg))"
  by pat_completeness auto
termination
  by (relation "measure (\<lambda>(srt, t, tb, C, k, lo, hi, asg). nat (hi - lo))") auto

text \<open>
  \<^verbatim>\<open>k_centers(C, k)\<close>. \<^verbatim>\<open>assert(k * C >= n)\<close> aborts the process when it fails; the
  product is an \<^verbatim>\<open>int\<close>. \<^verbatim>\<open>hi = distances.size() - 1\<close> is \<open>- 1\<close> for an empty vector.
\<close>

definition k_centers :: "('w::linordered_idom \<Rightarrow> int) \<Rightarrow> ((int \<Rightarrow> int \<Rightarrow> bool) \<Rightarrow> int list \<Rightarrow> int list)
     \<Rightarrow> nat \<Rightarrow> 'w tree \<Rightarrow> int \<Rightarrow> int \<Rightarrow> error + ('w \<times> int list \<times> (int \<Rightarrow> int))" where
  "k_centers cv srt fuel t C k =
     (if \<not> wrap32 (k * C) \<ge> tree_n t then Inl Assertion_failed
      else case precompute cv fuel t of
        None \<Rightarrow> Inl Recursion_too_deep
      | Some tb \<Rightarrow>
          (case search srt t tb C k 0 (int (length (distances tb)) - 1) (\<lambda>_. 0) of
             Inl e \<Rightarrow> Inl e
           | Inr (lo, asg) \<Rightarrow>
               (case at_index (distances tb) lo of
                  Inl e \<Rightarrow> Inl e
                | Inr r \<Rightarrow>
                    (case check srt t tb C k r asg of
                       Inl e \<Rightarrow> Inl e
                     | Inr (ok, centers, asg') \<Rightarrow> Inr (r, centers, asg')))))"

section \<open>Reading results\<close>

text \<open>What the driver reads of a result: the radius, the centres and
  \<^verbatim>\<open>assignment[1]\<close> to \<^verbatim>\<open>assignment[n]\<close>.\<close>

definition printed :: "'w tree \<Rightarrow> error + ('w \<times> int list \<times> (int \<Rightarrow> int))
     \<Rightarrow> error + ('w \<times> int list \<times> int list)" where
  "printed t res =
     (case res of Inl e \<Rightarrow> Inl e | Inr (r, cs, asg) \<Rightarrow> Inr (r, cs, map asg [1..tree_n t]))"

text \<open>The boolean that a call of \<^verbatim>\<open>check\<close> returns.\<close>

definition answer :: "error + (bool \<times> int list \<times> (int \<Rightarrow> int)) \<Rightarrow> error + bool" where
  "answer res = (case res of Inl e \<Rightarrow> Inl e | Inr (ok, cs, asg) \<Rightarrow> Inr ok)"

text \<open>
  The problem as section 1 of the specification words it: centres \<open>cs\<close>, at most \<open>k\<close>
  of them, opened on vertices, every vertex assigned to an opened centre within distance
  \<open>r\<close>, and no centre serving more than \<open>C\<close> vertices. The distances are read from the
  table \<open>dm\<close>.
\<close>

definition serves :: "'w tree \<Rightarrow> (int \<Rightarrow> int) \<Rightarrow> int \<Rightarrow> int list" where
  "serves t asg c = filter (\<lambda>v. asg v = c) [1..tree_n t]"

definition solves :: "'w tree \<Rightarrow> (int \<Rightarrow> int \<Rightarrow> int) \<Rightarrow> int \<Rightarrow> int \<Rightarrow> int \<Rightarrow> int list \<Rightarrow> (int \<Rightarrow> int) \<Rightarrow> bool" where
  "solves t dm C k r cs asg \<longleftrightarrow>
     int (length cs) \<le> k \<and> list_all (\<lambda>c. 1 \<le> c \<and> c \<le> tree_n t) cs \<and>
     list_all (\<lambda>v. asg v \<in> set cs \<and> dm (asg v) v \<le> r) [1..tree_n t] \<and>
     list_all (\<lambda>c. int (length (serves t asg c)) \<le> C) cs"

text \<open>The tables of a tree whose traversal stays within the depth bound.\<close>

definition tables_of :: "('w::linordered_idom \<Rightarrow> int) \<Rightarrow> nat \<Rightarrow> 'w tree \<Rightarrow> 'w tables" where
  "tables_of cv fuel t = (case precompute cv fuel t of None \<Rightarrow> tables_init | Some tb \<Rightarrow> tb)"

text \<open>A list keeps the ascending order of the vertex numbers among the vertices that
  have the same key.\<close>

definition ties_ascending :: "(int \<Rightarrow> int) \<Rightarrow> int list \<Rightarrow> bool" where
  "ties_ascending key xs \<longleftrightarrow> sorted_wrt (\<lambda>a b. key a = key b \<longrightarrow> a < b) xs"

text \<open>The order that the specification describes for \<^verbatim>\<open>reachable\<close>: the greater key
  first, and the smaller vertex number first among equal keys.\<close>

definition before :: "(int \<Rightarrow> int) \<Rightarrow> int \<Rightarrow> int \<Rightarrow> bool" where
  "before key a b \<longleftrightarrow> key a > key b \<or> (key a = key b \<and> a < b)"

section \<open>Trees\<close>

text \<open>
  The input that the specification calls a tree, for the adjacency lists of the store.
  The vertices are 1 to \<open>n\<close>. A path is a list of pairwise different vertices in
  which each vertex is in the adjacency list of the one before. The lists are well
  formed when a vertex has no entry for itself and no two entries for the same
  neighbour, and every entry has its mirror entry with the same weight, as
  \<^verbatim>\<open>add_edge\<close> makes them. The store is a tree when, moreover, every two vertices are
  joined by exactly one path (connected and acyclic).
\<close>

definition verts :: "'w tree \<Rightarrow> int set" where
  "verts t = {1..tree_n t}"

definition nbrs :: "'w tree \<Rightarrow> int \<Rightarrow> int list" where
  "nbrs t s = map fst (tree_con t s)"

definition walk :: "'w tree \<Rightarrow> int list \<Rightarrow> bool" where
  "walk t xs \<longleftrightarrow> successively (\<lambda>a b. b \<in> set (nbrs t a)) xs"

definition path :: "'w tree \<Rightarrow> int \<Rightarrow> int \<Rightarrow> int list \<Rightarrow> bool" where
  "path t a b xs \<longleftrightarrow> xs \<noteq> [] \<and> hd xs = a \<and> last xs = b \<and> distinct xs \<and> walk t xs"

definition adjacency_ok :: "'w tree \<Rightarrow> bool" where
  "adjacency_ok t \<longleftrightarrow>
     (\<forall>s \<in> verts t. distinct (nbrs t s) \<and>
        (\<forall>e \<in> set (tree_con t s).
           fst e \<in> verts t \<and> fst e \<noteq> s \<and> (s, snd e) \<in> set (tree_con t (fst e))))"

definition is_tree :: "'w tree \<Rightarrow> bool" where
  "is_tree t \<longleftrightarrow>
     1 \<le> tree_n t \<and> adjacency_ok t \<and> (\<forall>a \<in> verts t. \<forall>b \<in> verts t. \<exists>!xs. path t a b xs)"

definition weights_nonneg :: "'w::linordered_idom tree \<Rightarrow> bool" where
  "weights_nonneg t \<longleftrightarrow> (\<forall>s \<in> verts t. \<forall>e \<in> set (tree_con t s). 0 \<le> snd e)"

text \<open>The weight of the edge between two neighbours, and the weight of a path: the tree
  distance between its ends.\<close>

definition wt :: "'w::zero tree \<Rightarrow> int \<Rightarrow> int \<Rightarrow> 'w" where
  "wt t a b = (case map_of (tree_con t a) b of None \<Rightarrow> 0 | Some w \<Rightarrow> w)"

fun pw :: "'w::{zero,plus} tree \<Rightarrow> int list \<Rightarrow> 'w" where
  "pw t [] = 0"
| "pw t [a] = 0"
| "pw t (a # b # xs) = wt t a b + pw t (b # xs)"

section \<open>Invariants\<close>

text \<open>
  The state of the tables during the traversals, for \<^verbatim>\<open>tree<int>\<close>. An entry
  \<open>D[a][x]\<close> is good when it is the weight of every path from \<open>a\<close> to \<open>x\<close> and,
  for \<open>a < x\<close>, the weight is in the list of distances; a list of ancestors is good
  when it holds its own vertex. No step of a traversal of a tree spoils a good entry
  (\<open>later\<close>), and the call for a stack \<open>p\<close> makes the entries good for the vertices
  whose path from the start begins with \<open>p\<close> (\<open>covers\<close>).
\<close>

definition goodD :: "int tree \<Rightarrow> int tables \<Rightarrow> int \<Rightarrow> int \<Rightarrow> bool" where
  "goodD t tb a x \<longleftrightarrow>
     (\<forall>xs. path t a x xs \<longrightarrow> D_tab tb a x = pw t xs \<and> (a < x \<longrightarrow> pw t xs \<in> set (distances tb)))"

definition goodA :: "'w tables \<Rightarrow> int \<Rightarrow> bool" where
  "goodA tb x \<longleftrightarrow> x \<in> set (ancestors tb x)"

definition later :: "int tree \<Rightarrow> int tables \<Rightarrow> int tables \<Rightarrow> bool" where
  "later t tb tb' \<longleftrightarrow>
     (\<forall>a x. goodD t tb a x \<longrightarrow> goodD t tb' a x) \<and> (\<forall>x. goodA tb x \<longrightarrow> goodA tb' x) \<and>
     (weights_nonneg t \<and> (\<forall>d \<in> set (distances tb). 0 \<le> d) \<longrightarrow> (\<forall>d \<in> set (distances tb'). 0 \<le> d))"

definition covers :: "int tree \<Rightarrow> int tables \<Rightarrow> int \<Rightarrow> int list \<Rightarrow> bool" where
  "covers t tb beg p \<longleftrightarrow>
     (\<forall>x ys. path t beg x (p @ ys) \<longrightarrow> goodD t tb beg x \<and> (beg = root_vertex \<longrightarrow> goodA tb x))"

text \<open>What the tables of a tree are when all traversals have run.\<close>

definition tables_ok :: "int tree \<Rightarrow> int tables \<Rightarrow> bool" where
  "tables_ok t tb \<longleftrightarrow>
     sorted (distances tb) \<and>
     (\<forall>x \<in> verts t. x \<in> set (ancestors tb x)) \<and>
     (\<forall>a \<in> verts t. \<forall>b \<in> verts t.
        (\<forall>xs. path t a b xs \<longrightarrow> D_tab tb a b = pw t xs) \<and>
        (a < b \<longrightarrow> D_tab tb a b \<in> set (distances tb))) \<and>
     (weights_nonneg t \<longrightarrow> (\<forall>d \<in> set (distances tb). 0 \<le> d))"

text \<open>
  The invariant of the greedy loop over the vertices \<open>V\<close>: the unassigned vertices
  \<open>U\<close>, the centres opened so far, each assigned vertex within the radius of its
  centre, and no centre with more than \<open>C\<close> assigned vertices.
\<close>

definition ginv :: "int set \<Rightarrow> int tables \<Rightarrow> int \<Rightarrow> int \<Rightarrow> int list \<Rightarrow> int list \<Rightarrow> (int \<Rightarrow> int) \<Rightarrow> bool" where
  "ginv V tb C r U cs asg \<longleftrightarrow>
     set U \<subseteq> V \<and> distinct U \<and> set cs \<subseteq> V \<and>
     (\<forall>v \<in> V - set U. asg v \<in> set cs \<and> D_tab tb (asg v) v \<le> r) \<and>
     (\<forall>c. card {v \<in> V. v \<notin> set U \<and> asg v = c} \<le> nat C)"

section \<open>Example trees\<close>

text \<open>The tree of \<^verbatim>\<open>usage_example\<close>.\<close>

definition usage_tree :: "int tree" where
  "usage_tree = add_edge 1 4 1 (add_edge 1 3 3 (add_edge 1 2 1 (tree_new 4)))"

text \<open>A single edge of weight 1.\<close>

definition edge_tree :: "int tree" where
  "edge_tree = add_edge 1 2 1 (tree_new 2)"

text \<open>The path 1 - 3 - 2 with both weights 1.\<close>

definition path_tree :: "int tree" where
  "path_tree = add_edge 3 2 1 (add_edge 1 3 1 (tree_new 3))"

text \<open>The path 3 - 1 - 4 - 2 with weights 1, 2, 1.\<close>

definition long_path_tree :: "int tree" where
  "long_path_tree = add_edge 2 4 1 (add_edge 1 3 1 (add_edge 1 4 2 (tree_new 4)))"

text \<open>The star with the centre 1 and the leaves 2, 3, 4 at the distances 5, 3, 2, and
  the vertex 5 hanging from 3.\<close>

definition five_tree :: "int tree" where
  "five_tree = add_edge 3 5 1 (add_edge 1 4 2 (add_edge 1 3 3 (add_edge 1 2 5 (tree_new 5))))"

text \<open>The path 1 - 2 - 3 - 4 - 5 - 6 with all weights 1.\<close>

definition six_path :: "int tree" where
  "six_path = add_edge 5 6 1 (add_edge 4 5 1 (add_edge 3 4 1 (add_edge 2 3 1
                (add_edge 1 2 1 (tree_new 6)))))"

text \<open>The path 1 - 2 - 3 with both weights 2000000000.\<close>

definition heavy_path :: "int tree" where
  "heavy_path = add_edge 2 3 2000000000 (add_edge 1 2 2000000000 (tree_new 3))"

text \<open>The star of 17 vertices: the centre 1 and the leaves 2 to 17, all weights 1, the
  edges added in the order of the leaves.\<close>

definition star_tree :: "int tree" where
  "star_tree = fold (\<lambda>v. add_edge 1 v 1) [2..17] (tree_new 17)"

text \<open>
  \<^verbatim>\<open>tree<double>\<close> with the single edge of weight 0.5. The value 0.5 and the sums that
  the search forms of it are exact in binary floating point, so the rationals compute
  what the doubles do on this tree. The conversion of a floating value to \<^verbatim>\<open>int\<close>
  drops the fraction.
\<close>

definition half_tree :: "rat tree" where
  "half_tree = add_edge 1 2 (1 / 2) (tree_new 2)"

definition drop_fraction :: "rat \<Rightarrow> int" where
  "drop_fraction x = (if 0 \<le> x then \<lfloor>x\<rfloor> else \<lceil>x\<rceil>)"

section \<open>The insertion sort meets the contract\<close>

lemma mset_insert_by: "mset (insert_by lt x xs) = add_mset x (mset xs)"
  by (induction xs) auto

lemma mset_sort_stable: "mset (sort_stable lt xs) = mset xs"
  by (induction xs) (auto simp: mset_insert_by)

lemma set_insert_by: "set (insert_by lt x xs) = insert x (set xs)"
  by (induction xs) auto

lemma sorted_insert_by:
  "sorted_wrt (\<lambda>a b. (key b :: int) \<le> key a) xs \<Longrightarrow>
   sorted_wrt (\<lambda>a b. key b \<le> key a) (insert_by (\<lambda>i j. key i > key j) x xs)"
  by (induction xs) (auto simp: set_insert_by)

lemma sorted_sort_stable:
  "sorted_wrt (\<lambda>a b. (key b :: int) \<le> key a) (sort_stable (\<lambda>i j. key i > key j) xs)"
  by (induction xs) (auto simp: sorted_insert_by)

lemma sort_stable_ok: "std_sort_ok sort_stable"
  unfolding std_sort_ok_def by (simp add: mset_sort_stable sorted_sort_stable not_less)

section \<open>The library sort meets the contract\<close>

text \<open>
  The partition and the heap sort move the elements by swaps and by shifts into a hole,
  at positions inside the list, so the result of \<^verbatim>\<open>__introsort_loop\<close> is a rearrangement
  of the list. The final insertion sort puts every element in its place among the sorted
  elements before it.
\<close>

declare scan_up.simps [simp del] unguarded_partition.simps [simp del] push_heap.simps [simp del]
  adjust_loop.simps [simp del] sort_heap.simps [simp del] lg.simps [simp del]

lemma iter_swap_mset:
  "i < length a \<Longrightarrow> j < length a \<Longrightarrow> mset (iter_swap i j a) = mset a"
  by (simp add: iter_swap_def mset_swap)

lemma iter_swap_length: "length (iter_swap i j a) = length a"
  by (simp add: iter_swap_def)

lemma move_median_mset:
  "r < length a \<Longrightarrow> ia < length a \<Longrightarrow> ib < length a \<Longrightarrow> ic < length a \<Longrightarrow>
   mset (move_median_to_first lt r ia ib ic a) = mset a"
  by (simp add: move_median_to_first_def iter_swap_mset)

lemma move_median_length: "length (move_median_to_first lt r ia ib ic a) = length a"
  by (simp add: move_median_to_first_def iter_swap_length)

lemma scan_up_le: "first \<le> length a \<Longrightarrow> scan_up lt pivot a first \<le> length a"
  by (induction lt pivot a first rule: scan_up.induct) (subst scan_up.simps, simp)

lemma scan_down_le: "scan_down lt pivot a j \<le> j"
  by (induction j) auto

lemma unguarded_partition_mset:
  "lst \<le> length a \<Longrightarrow> first \<le> length a \<Longrightarrow>
   mset (snd (unguarded_partition lt first lst pivot a)) = mset a \<and>
   length (snd (unguarded_partition lt first lst pivot a)) = length a \<and>
   fst (unguarded_partition lt first lst pivot a) \<le> length a"
proof (induction lt first lst pivot a rule: unguarded_partition.induct)
  case (1 lt first lst pivot a)
  let ?f = "scan_up lt pivot a first" and ?l = "scan_down lt pivot a (lst - 1)"
  have f: "?f \<le> length a" using scan_up_le[OF "1.prems"(2)] .
  have l: "?l \<le> lst - 1" by (rule scan_down_le)
  show ?case
  proof (cases "?f < ?l")
    case False
    then show ?thesis using f by (subst (1 2 3) unguarded_partition.simps) (simp add: Let_def)
  next
    case True
    then have r: "?f < length a" "?l < length a" "?l \<le> length a" "?f + 1 \<le> length a"
      using l "1.prems"(1) by auto
    have m: "mset (iter_swap ?f ?l a) = mset a" and n: "length (iter_swap ?f ?l a) = length a"
      using r by (simp_all add: iter_swap_mset iter_swap_length)
    from "1.IH"[OF refl refl _ ] True r n
    have "mset (snd (unguarded_partition lt (?f + 1) ?l pivot (iter_swap ?f ?l a))) = mset (iter_swap ?f ?l a) \<and>
      length (snd (unguarded_partition lt (?f + 1) ?l pivot (iter_swap ?f ?l a))) = length (iter_swap ?f ?l a) \<and>
      fst (unguarded_partition lt (?f + 1) ?l pivot (iter_swap ?f ?l a)) \<le> length (iter_swap ?f ?l a)"
      by simp
    then show ?thesis using True m n
      by (subst (1 2 3) unguarded_partition.simps) (simp add: Let_def)
  qed
qed

lemma unguarded_partition_pivot_mset:
  assumes "lst \<le> length a" "16 < lst - first"
  shows "mset (snd (unguarded_partition_pivot lt first lst a)) = mset a"
    and "length (snd (unguarded_partition_pivot lt first lst a)) = length a"
    and "fst (unguarded_partition_pivot lt first lst a) \<le> length a"
proof -
  let ?m = "move_median_to_first lt first (first + 1) (first + (lst - first) div 2) (lst - 1) a"
  have "mset ?m = mset a" "length ?m = length a"
    using assms by (simp_all add: move_median_mset move_median_length)
  moreover have "lst \<le> length ?m" "first + 1 \<le> length ?m"
    using assms by (simp_all add: move_median_length)
  ultimately show "mset (snd (unguarded_partition_pivot lt first lst a)) = mset a"
    and "length (snd (unguarded_partition_pivot lt first lst a)) = length a"
    and "fst (unguarded_partition_pivot lt first lst a) \<le> length a"
    using unguarded_partition_mset[of lst ?m "first + 1" lt first]
    by (simp_all add: unguarded_partition_pivot_def Let_def)
qed

lemma update_update_mset:
  assumes "i < length a" "j < length a"
  shows "mset (a[i := a ! j, j := v]) = mset (a[i := v])"
proof (cases "i = j")
  case True
  then show ?thesis by simp
next
  case False
  then show ?thesis using assms by (simp add: mset_update nth_list_update)
qed

lemma push_heap_mset:
  "first + holeIndex < length a \<Longrightarrow>
   mset (push_heap lt first holeIndex topIndex val a) = mset (a[first + holeIndex := val]) \<and>
   length (push_heap lt first holeIndex topIndex val a) = length a"
proof (induction lt first holeIndex topIndex val a rule: push_heap.induct)
  case (1 lt first holeIndex topIndex val a)
  let ?p = "(holeIndex - 1) div 2"
  show ?case
  proof (cases "holeIndex > topIndex \<and> lt (a ! (first + ?p)) val")
    case False
    then show ?thesis by (subst (1 2) push_heap.simps) (auto simp: Let_def)
  next
    case True
    let ?a = "a[first + holeIndex := a ! (first + ?p)]"
    have p: "first + ?p < length a" using "1.prems" by auto
    from "1.IH"[OF refl] True p
    have "mset (push_heap lt first ?p topIndex val ?a) = mset (?a[first + ?p := val]) \<and>
          length (push_heap lt first ?p topIndex val ?a) = length ?a" by simp
    moreover have "mset (?a[first + ?p := val]) = mset (a[first + holeIndex := val])"
      using update_update_mset[OF "1.prems" p] .
    ultimately show ?thesis using True
      by (subst (1 2) push_heap.simps) (simp add: Let_def)
  qed
qed


lemma adjust_loop_mset:
  "first + len \<le> length a \<Longrightarrow> holeIndex < len \<Longrightarrow>
   (case adjust_loop lt first len holeIndex secondChild a of (h, sc, a') \<Rightarrow>
      (\<forall>v. mset (a'[first + h := v]) = mset (a[first + holeIndex := v])) \<and>
      length a' = length a \<and> h < len \<and> secondChild \<le> sc \<and> \<not> sc < (len - 1) div 2)"
proof (induction lt first len holeIndex secondChild a rule: adjust_loop.induct)
  case (1 lt first len holeIndex secondChild a)
  show ?case
  proof (cases "secondChild < (len - 1) div 2")
    case False
    then show ?thesis using "1.prems" by (subst adjust_loop.simps) simp
  next
    case True
    define sc where "sc = 2 * (secondChild + 1)"
    define sc1 where "sc1 = (if lt (a ! (first + sc)) (a ! (first + (sc - 1))) then sc - 1 else sc)"
    let ?a = "a[first + holeIndex := a ! (first + sc1)]"
    have r: "sc1 < len" "secondChild \<le> sc1" using True by (auto simp: sc1_def sc_def)
    have i: "first + holeIndex < length a" "first + sc1 < length a" using r "1.prems" by auto
    have u: "adjust_loop lt first len holeIndex secondChild a = adjust_loop lt first len sc1 sc1 ?a"
      using True by (subst adjust_loop.simps) (simp add: Let_def sc_def sc1_def)
    have "case adjust_loop lt first len sc1 sc1 ?a of (h, sc', a') \<Rightarrow>
      (\<forall>v. mset (a'[first + h := v]) = mset (?a[first + sc1 := v])) \<and>
      length a' = length ?a \<and> h < len \<and> sc1 \<le> sc' \<and> \<not> sc' < (len - 1) div 2"
      using "1.IH"[OF True sc_def sc1_def] "1.prems" r by simp
    moreover have "mset (?a[first + sc1 := v]) = mset (a[first + holeIndex := v])" for v
      using update_update_mset[OF i] .
    ultimately show ?thesis unfolding u using r by (auto split: prod.splits)
  qed
qed

lemma adjust_heap_mset:
  assumes "first + len \<le> length a" "holeIndex < len"
  shows "mset (adjust_heap lt first holeIndex len val a) = mset (a[first + holeIndex := val]) \<and>
         length (adjust_heap lt first holeIndex len val a) = length a"
proof -
  obtain h sc a' where l: "adjust_loop lt first len holeIndex holeIndex a = (h, sc, a')"
    by (cases "adjust_loop lt first len holeIndex holeIndex a")
  from adjust_loop_mset[OF assms, where lt=lt and secondChild=holeIndex] l
  have m: "\<And>v. mset (a'[first + h := v]) = mset (a[first + holeIndex := v])"
    and n: "length a' = length a" and h: "h < len" by auto
  have hi: "first + h < length a'" using h n assms(1) by simp
  show ?thesis
  proof (cases "even len \<and> int sc = (int len - 2) div 2")
    case True
    then have e: "2 * (sc + 1) - 1 = len - 1" and len: "0 < len" using assms(2) by auto
    let ?a = "a'[first + h := a' ! (first + (len - 1))]"
    have li: "first + (len - 1) < length a'" using len n assms(1) by simp
    have "mset (push_heap lt first (len - 1) holeIndex val ?a) = mset (?a[first + (len - 1) := val]) \<and>
          length (push_heap lt first (len - 1) holeIndex val ?a) = length ?a"
      using push_heap_mset[where first=first and holeIndex="len - 1" and a="?a" and lt=lt
          and topIndex=holeIndex and val=val] li by simp
    moreover have "mset (?a[first + (len - 1) := val]) = mset (a'[first + h := val])"
      using update_update_mset[OF hi li] .
    ultimately show ?thesis using True l m n e by (simp add: adjust_heap_def)
  next
    case False
    then show ?thesis using l m n push_heap_mset[OF hi, where lt=lt and topIndex=holeIndex and val=val]
      by (auto simp: adjust_heap_def)
  qed
qed

lemma pop_heap_mset:
  assumes "lst \<le> length a" "first < lst" "result < length a"
  shows "mset (pop_heap lt first lst result a) = mset a \<and>
         length (pop_heap lt first lst result a) = length a"
proof -
  let ?a = "a[result := a ! first]"
  have "mset (adjust_heap lt first 0 (lst - first) (a ! result) ?a) = mset (?a[first + 0 := a ! result]) \<and>
        length (adjust_heap lt first 0 (lst - first) (a ! result) ?a) = length ?a"
    using assms by (intro adjust_heap_mset) auto
  moreover have "mset (?a[first := a ! result]) = mset a"
    using assms mset_swap[of first a result] by simp
  ultimately show ?thesis by (simp add: pop_heap_def)
qed

lemma make_heap_loop_mset:
  "first + len \<le> length a \<Longrightarrow> parent < len \<Longrightarrow>
   mset (make_heap_loop lt first len parent a) = mset a \<and>
   length (make_heap_loop lt first len parent a) = length a"
proof (induction parent arbitrary: a)
  case 0
  then show ?case using adjust_heap_mset[where first=first and len=len and a=a and holeIndex=0 and lt=lt
      and val="a ! first"] by simp
next
  case (Suc parent)
  let ?a = "adjust_heap lt first (Suc parent) len (a ! (first + Suc parent)) a"
  have "mset ?a = mset a \<and> length ?a = length a"
    using adjust_heap_mset[OF Suc.prems, where lt=lt and val="a ! (first + Suc parent)"] by simp
  then show ?case using Suc.IH[where a="?a"] Suc.prems by simp
qed

lemma make_heap_mset:
  "lst \<le> length a \<Longrightarrow> mset (make_heap lt first lst a) = mset a \<and>
   length (make_heap lt first lst a) = length a"
  using make_heap_loop_mset[where first=first and len="lst - first" and a=a
      and parent="(lst - first - 2) div 2" and lt=lt]
  by (auto simp: make_heap_def)

lemma sort_heap_mset:
  "lst \<le> length a \<Longrightarrow> mset (sort_heap lt first lst a) = mset a \<and>
   length (sort_heap lt first lst a) = length a"
proof (induction lt first lst a rule: sort_heap.induct)
  case (1 lt first lst a)
  show ?case
  proof (cases "lst - first > 1")
    case False
    then show ?thesis by (subst (1 2) sort_heap.simps) simp
  next
    case True
    let ?a = "pop_heap lt first (lst - 1) (lst - 1) a"
    have p: "mset ?a = mset a \<and> length ?a = length a"
      using True "1.prems" by (intro pop_heap_mset) auto
    then show ?thesis using "1.IH"[OF True] True "1.prems"
      by (subst (1 2) sort_heap.simps) simp
  qed
qed

lemma partial_sort_mset:
  "lst \<le> length a \<Longrightarrow> mset (partial_sort lt first lst lst a) = mset a \<and>
   length (partial_sort lt first lst lst a) = length a"
  using make_heap_mset[where lst=lst and a=a and lt=lt and first=first]
    sort_heap_mset[where lst=lst and a="make_heap lt first lst a" and lt=lt and first=first]
  by (simp add: partial_sort_def heap_select_def)

lemma introsort_loop_mset:
  "lst \<le> length a \<Longrightarrow> mset (introsort_loop lt first lst depth_limit a) = mset a \<and>
   length (introsort_loop lt first lst depth_limit a) = length a"
proof (induction depth_limit arbitrary: first lst a)
  case 0
  then show ?case using partial_sort_mset[where lst=lst and a=a and lt=lt and first=first] by simp
next
  case (Suc d)
  show ?case
  proof (cases "lst - first > 16")
    case False
    then show ?thesis by simp
  next
    case True
    obtain cut a1 where p: "unguarded_partition_pivot lt first lst a = (cut, a1)"
      by (cases "unguarded_partition_pivot lt first lst a")
    from unguarded_partition_pivot_mset[OF Suc.prems True, where lt=lt] p
    have a1: "mset a1 = mset a" "length a1 = length a" "cut \<le> length a" by auto
    let ?a2 = "introsort_loop lt cut lst d a1"
    have a2: "mset ?a2 = mset a1 \<and> length ?a2 = length a1"
      using Suc.IH[where first=cut and lst=lst and a=a1] Suc.prems a1 by simp
    have "mset (introsort_loop lt first cut d ?a2) = mset ?a2 \<and>
          length (introsort_loop lt first cut d ?a2) = length ?a2"
      using Suc.IH[where first=first and lst=cut and a="?a2"] a1 a2 by simp
    then show ?thesis using True p a1 a2 by simp
  qed
qed


lemma unguarded_linear_insert_append:
  "unguarded_linear_insert lt x (length P) (P @ y # rest)
     = rev (insert_by (\<lambda>q v. lt v q) x (rev P)) @ rest"
proof (induction P arbitrary: y rest rule: rev_induct)
  case Nil
  then show ?case by simp
next
  case (snoc q Q)
  have n: "(Q @ [q]) @ y # rest = Q @ q # y # rest" by simp
  have u: "(Q @ q # y # rest)[Suc (length Q) := z] = Q @ q # z # rest" for z
    by (simp add: list_update_append)
  show ?case
  proof (cases "lt x q")
    case True
    then show ?thesis
      using snoc.IH[of q "q # rest"] by (simp add: n u nth_append del: append_assoc)
  next
    case False
    then show ?thesis by (simp add: n u nth_append del: append_assoc)
  qed
qed

lemma insert_by_ascending:
  "sorted_wrt (\<lambda>a b. (key a :: int) \<le> key b) Q \<Longrightarrow>
   sorted_wrt (\<lambda>a b. key a \<le> key b) (insert_by (\<lambda>q v. key v > key q) x Q)"
  by (induction Q) (auto simp: set_insert_by)

lemma unguarded_step_sorted:
  assumes "sorted_wrt (\<lambda>a b. (key a :: int) \<ge> key b) P"
  shows "\<exists>N. unguarded_linear_insert (\<lambda>i j. key i > key j) x (length P) (P @ y # rest) = N @ rest \<and>
             sorted_wrt (\<lambda>a b. key a \<ge> key b) N \<and> mset N = add_mset x (mset P)"
proof -
  let ?N = "rev (insert_by (\<lambda>q v. key v > key q) x (rev P))"
  have "sorted_wrt (\<lambda>a b. key a \<le> key b) (rev P)" using assms by (simp add: sorted_wrt_rev)
  then have "sorted_wrt (\<lambda>a b. key a \<ge> key b) ?N"
    using insert_by_ascending[of key "rev P" x] by (simp add: sorted_wrt_rev)
  moreover have "mset ?N = add_mset x (mset P)" by (simp add: mset_insert_by)
  ultimately show ?thesis by (auto simp: unguarded_linear_insert_append)
qed

lemma insertion_step_sorted:
  assumes "sorted_wrt (\<lambda>a b. (key a :: int) \<ge> key b) P" "P \<noteq> []"
  shows "\<exists>N. insertion_step (\<lambda>i j. key i > key j) 0 (length P) (P @ x # rest) = N @ rest \<and>
             sorted_wrt (\<lambda>a b. key a \<ge> key b) N \<and> mset N = add_mset x (mset P)"
proof (cases "key x > key (hd P)")
  case True
  have "key (hd P) \<ge> key p" if "p \<in> set P" for p
    using assms that by (cases P) auto
  then have "sorted_wrt (\<lambda>a b. key a \<ge> key b) (x # P)" using True assms(1) by fastforce
  moreover have "insertion_step (\<lambda>i j. key i > key j) 0 (length P) (P @ x # rest) = (x # P) @ rest"
    using True assms(2) by (simp add: insertion_step_def nth_append hd_conv_nth)
  ultimately show ?thesis by (intro exI[of _ "x # P"]) simp
next
  case False
  then have "insertion_step (\<lambda>i j. key i > key j) 0 (length P) (P @ x # rest)
      = unguarded_linear_insert (\<lambda>i j. key i > key j) x (length P) (P @ x # rest)"
    using assms(2) by (simp add: insertion_step_def nth_append hd_conv_nth)
  then show ?thesis using unguarded_step_sorted[OF assms(1), of x x rest] by simp
qed

lemma fold_steps_sorted:
  assumes st: "\<And>P x rest. P \<noteq> [] \<Longrightarrow> sorted_wrt (\<lambda>a b. (key a :: int) \<ge> key b) P \<Longrightarrow>
      \<exists>N. stp (length P) (P @ x # rest) = N @ rest \<and>
          sorted_wrt (\<lambda>a b. key a \<ge> key b) N \<and> mset N = add_mset x (mset P)"
    and lo: "1 \<le> lo" "length P = lo" "sorted_wrt (\<lambda>a b. key a \<ge> key b) P" "mset P = mset (take lo b)"
  shows "lo \<le> hi \<Longrightarrow> hi \<le> length b \<Longrightarrow>
         \<exists>N. fold stp [lo..<hi] (P @ drop lo b) = N @ drop hi b \<and> length N = hi \<and>
             sorted_wrt (\<lambda>a b. key a \<ge> key b) N \<and> mset N = mset (take hi b)"
proof (induction hi rule: dec_induct)
  case base
  then show ?case using lo by simp
next
  case (step i)
  then obtain N where f: "fold stp [lo..<i] (P @ drop lo b) = N @ drop i b"
    and l: "length N = i" and s: "sorted_wrt (\<lambda>a b. key a \<ge> key b) N"
    and m: "mset N = mset (take i b)" by auto
  have i: "i < length b" using step.prems by simp
  have d: "drop i b = b ! i # drop (Suc i) b" using i by (simp add: Cons_nth_drop_Suc)
  have ne: "N \<noteq> []" using l lo(1) step.hyps(1) by auto
  from st[OF ne s, of "b ! i" "drop (Suc i) b"] obtain N' where
    "stp (length N) (N @ b ! i # drop (Suc i) b) = N' @ drop (Suc i) b"
    "sorted_wrt (\<lambda>a b. key a \<ge> key b) N'" "mset N' = add_mset (b ! i) (mset N)"
    by blast
  moreover have "length N' = Suc i"
    using \<open>mset N' = add_mset (b ! i) (mset N)\<close> l by (metis size_mset size_add_mset)
  moreover have "[lo..<Suc i] = [lo..<i] @ [i]" using step.hyps(1) by simp
  ultimately show ?case using f l m d i
    by (intro exI[of _ N']) (simp add: take_Suc_conv_app_nth)
qed

lemma insertion_sort_sorted:
  assumes "1 \<le> m" "m \<le> length b"
  shows "\<exists>N. insertion_sort (\<lambda>i j. key i > key j) 0 m b = N @ drop m b \<and> length N = m \<and>
             sorted_wrt (\<lambda>a b. (key a :: int) \<ge> key b) N \<and> mset N = mset (take m b)"
proof -
  have b: "b = take 1 b @ drop 1 b" by simp
  have l: "length (take 1 b) = 1" using assms by simp
  have s: "sorted_wrt (\<lambda>a b. key a \<ge> key b) (take 1 b)" by (cases b) simp_all
  have "\<exists>N. fold (insertion_step (\<lambda>i j. key i > key j) 0) [1..<m] (take 1 b @ drop 1 b) = N @ drop m b \<and>
          length N = m \<and> sorted_wrt (\<lambda>a b. key a \<ge> key b) N \<and> mset N = mset (take m b)"
    by (rule fold_steps_sorted[where key=key, OF _ _ l s refl assms])
       (use insertion_step_sorted in auto)
  then show ?thesis using assms by (simp add: insertion_sort_def)
qed

lemma final_insertion_sort_sorted:
  assumes "b \<noteq> []"
  shows "sorted_wrt (\<lambda>a b. (key a :: int) \<ge> key b) (final_insertion_sort (\<lambda>i j. key i > key j) 0 (length b) b) \<and>
         mset (final_insertion_sort (\<lambda>i j. key i > key j) 0 (length b) b) = mset b"
proof (cases "length b > 16")
  case False
  have "1 \<le> length b" using assms by (cases b) auto
  from insertion_sort_sorted[OF this order_refl, of key] False show ?thesis
    by (auto simp: final_insertion_sort_def)
next
  case True
  then have "(1::nat) \<le> 16" "16 \<le> length b" by simp_all
  from insertion_sort_sorted[OF this, of key] obtain P where
    P: "insertion_sort (\<lambda>i j. key i > key j) 0 16 b = P @ drop 16 b" "length P = 16"
      "sorted_wrt (\<lambda>a b. key a \<ge> key b) P" "mset P = mset (take 16 b)" by blast
  have "\<exists>N. fold (\<lambda>i a. unguarded_linear_insert (\<lambda>i j. key i > key j) (a ! i) i a) [16..<length b]
            (P @ drop 16 b) = N @ drop (length b) b \<and> length N = length b \<and>
          sorted_wrt (\<lambda>a b. key a \<ge> key b) N \<and> mset N = mset (take (length b) b)"
  proof (rule fold_steps_sorted[where key=key, OF _ _ P(2,3,4) \<open>16 \<le> length b\<close> order_refl])
    fix Q :: "'a list" and x rest
    assume "Q \<noteq> []" "sorted_wrt (\<lambda>a b. key a \<ge> key b) Q"
    then show "\<exists>N. unguarded_linear_insert (\<lambda>i j. key i > key j) ((Q @ x # rest) ! length Q)
                    (length Q) (Q @ x # rest) = N @ rest \<and>
          sorted_wrt (\<lambda>a b. key a \<ge> key b) N \<and> mset N = add_mset x (mset Q)"
      using unguarded_step_sorted[of key Q x x rest] by simp
  qed simp
  then show ?thesis using True P(1)
    by (auto simp: final_insertion_sort_def unguarded_insertion_sort_def)
qed

lemma gnu_sort_ok: "std_sort_ok gnu_sort"
  unfolding std_sort_ok_def
proof (intro allI)
  fix key :: "int \<Rightarrow> int" and xs :: "int list"
  let ?lt = "\<lambda>i j. key i > key j"
  show "mset (gnu_sort ?lt xs) = mset xs \<and> sorted_wrt (\<lambda>a b. \<not> key b > key a) (gnu_sort ?lt xs)"
  proof (cases "xs = []")
    case True
    then show ?thesis by (simp add: gnu_sort_def)
  next
    case False
    define b where "b = introsort_loop ?lt 0 (length xs) (lg (length xs) * 2) xs"
    have b: "mset b = mset xs" "length b = length xs"
      unfolding b_def using introsort_loop_mset[of "length xs" xs ?lt 0] by simp_all
    then have ne: "b \<noteq> []" using False by auto
    have g: "gnu_sort ?lt xs = final_insertion_sort ?lt 0 (length b) b"
      unfolding gnu_sort_def b_def[symmetric] using False b(2) by simp
    from final_insertion_sort_sorted[OF ne, of key] b(1) show ?thesis
      unfolding g by (simp add: not_less)
  qed
qed

section \<open>The library sort on short lists\<close>

text \<open>
  A list of at most 16 elements is sorted by the insertion sort alone. An element is
  moved to the left past the elements that the comparison puts after it, so elements
  that are equivalent keep their order: of an ascending list of vertices the result is
  in the order \<open>before\<close>.
\<close>

lemma introsort_loop_short: "lst - first \<le> 16 \<Longrightarrow> introsort_loop lt first lst depth_limit a = a"
  by (cases depth_limit) auto

lemma gnu_sort_short: "length a \<le> 16 \<Longrightarrow> gnu_sort lt a = insertion_sort lt 0 (length a) a"
  by (simp add: gnu_sort_def final_insertion_sort_def introsort_loop_short insertion_sort_def)

lemma insert_by_before:
  "sorted_wrt (\<lambda>a b. before key b a) Q \<Longrightarrow> \<forall>q \<in> set Q. q < x \<Longrightarrow>
   sorted_wrt (\<lambda>a b. before key b a) (insert_by (\<lambda>q v. key v > key q) x Q)"
proof (induction Q)
  case Nil
  then show ?case by simp
next
  case (Cons q Q)
  show ?case
  proof (cases "key x > key q")
    case True
    then show ?thesis using Cons by (auto simp: set_insert_by before_def)
  next
    case False
    then show ?thesis using Cons by (fastforce simp: before_def)
  qed
qed

lemma insertion_step_before:
  assumes "sorted_wrt (before key) P" "\<forall>p \<in> set P. p < x" "P \<noteq> []"
  shows "\<exists>N. insertion_step (\<lambda>i j. key i > key j) 0 (length P) (P @ x # rest) = N @ rest \<and>
             sorted_wrt (before key) N \<and> mset N = add_mset x (mset P) \<and> length N = Suc (length P)"
proof (cases "key x > key (hd P)")
  case True
  have "key (hd P) \<ge> key p" if "p \<in> set P" for p
    using assms(1,3) that by (cases P) (auto simp: before_def)
  then have "\<forall>p \<in> set P. before key x p" using True by (fastforce simp: before_def)
  then have "sorted_wrt (before key) (x # P)" using assms(1) by simp
  moreover have "insertion_step (\<lambda>i j. key i > key j) 0 (length P) (P @ x # rest) = (x # P) @ rest"
    using True assms(3) by (simp add: insertion_step_def nth_append hd_conv_nth)
  ultimately show ?thesis by (intro exI[of _ "x # P"]) simp
next
  case False
  let ?N = "rev (insert_by (\<lambda>q v. key v > key q) x (rev P))"
  have "sorted_wrt (\<lambda>a b. before key b a) (rev P)" using assms(1) by (simp add: sorted_wrt_rev)
  then have "sorted_wrt (\<lambda>a b. before key b a) (insert_by (\<lambda>q v. key v > key q) x (rev P))"
    using assms(2) by (intro insert_by_before) auto
  then have "sorted_wrt (before key) ?N" by (simp add: sorted_wrt_rev)
  moreover have "insertion_step (\<lambda>i j. key i > key j) 0 (length P) (P @ x # rest) = ?N @ rest"
    using False assms(3)
    by (simp add: insertion_step_def nth_append hd_conv_nth unguarded_linear_insert_append)
  moreover have "mset ?N = add_mset x (mset P)" by (simp add: mset_insert_by)
  moreover have "length ?N = Suc (length P)"
    using \<open>mset ?N = add_mset x (mset P)\<close> by (metis size_mset size_add_mset)
  ultimately show ?thesis by blast
qed

lemma insertion_fold_before:
  assumes a: "sorted_wrt (<) a"
  shows "1 \<le> i \<Longrightarrow> i \<le> length a \<Longrightarrow>
         \<exists>P. fold (insertion_step (\<lambda>i j. key i > key j) 0) [1..<i] a = P @ drop i a \<and>
             length P = i \<and> sorted_wrt (before key) P \<and> mset P = mset (take i a)"
proof (induction i rule: nat_induct_at_least)
  case base
  then show ?case by (intro exI[of _ "take 1 a"]) (cases a; simp)
next
  case (Suc i)
  then obtain P where f: "fold (insertion_step (\<lambda>i j. key i > key j) 0) [1..<i] a = P @ drop i a"
    and l: "length P = i" and s: "sorted_wrt (before key) P" and m: "mset P = mset (take i a)"
    by auto
  have i: "i < length a" using Suc.prems by simp
  have d: "drop i a = a ! i # drop (Suc i) a" using i by (simp add: Cons_nth_drop_Suc)
  have "set P = set (take i a)" using m by (metis set_mset_mset)
  moreover have "p < a ! i" if "p \<in> set (take i a)" for p
  proof -
    from that obtain j where "j < i" "p = a ! j" using i by (auto simp: in_set_conv_nth)
    then show ?thesis using a i by (simp add: sorted_wrt_nth_less)
  qed
  ultimately have lt: "\<forall>p \<in> set P. p < a ! i" by simp
  have ne: "P \<noteq> []" using l Suc.hyps by auto
  from insertion_step_before[OF s lt ne, of "drop (Suc i) a"] obtain N where
    "insertion_step (\<lambda>i j. key i > key j) 0 (length P) (P @ a ! i # drop (Suc i) a) = N @ drop (Suc i) a"
    "sorted_wrt (before key) N" "mset N = add_mset (a ! i) (mset P)" "length N = Suc (length P)"
    by blast
  moreover have "[1..<Suc i] = [1..<i] @ [i]" using Suc.hyps by simp
  ultimately show ?case using f l m d i
    by (intro exI[of _ N]) (simp add: take_Suc_conv_app_nth)
qed

lemma gnu_sort_short_before:
  assumes "sorted_wrt (<) a" "length a \<le> 16"
  shows "sorted_wrt (before key) (gnu_sort (\<lambda>i j. key i > key j) a) \<and>
         mset (gnu_sort (\<lambda>i j. key i > key j) a) = mset a"
proof (cases "a = []")
  case True
  then show ?thesis by (simp add: gnu_sort_def)
next
  case False
  then have "1 \<le> length a" by (cases a) auto
  from insertion_fold_before[OF assms(1) this, of key] obtain P where
    "fold (insertion_step (\<lambda>i j. key i > key j) 0) [1..<length a] a = P"
    "sorted_wrt (before key) P" "mset P = mset a" by auto
  then show ?thesis
    using False by (simp add: gnu_sort_short[OF assms(2)] insertion_sort_def)
qed

section \<open>The candidate set holds each vertex once\<close>

lemma init_step_snd:
  "snd (init_step tb r i acc) = (case covering tb r i of None \<Rightarrow> snd acc
      | Some it \<Rightarrow> insort_insert (of_int (- D_tab tb root_vertex it), i) (snd acc))"
  by (simp add: init_step_def split: option.splits)

lemma distinct_map_snd_insort:
  assumes "distinct (map snd st)" "i \<notin> snd ` set st"
  shows "distinct (map snd (insort_insert (x, i) st))"
proof -
  have ni: "(x, i) \<notin> set st" using assms(2) by force
  have "mset (map snd (insort (x, i) st)) = mset (i # map snd st)"
    by simp
  moreover have "distinct (i # map snd st)"
    using assms by simp
  ultimately have "distinct (map snd (insort (x, i) st))"
    by (metis mset_eq_imp_distinct_iff)
  then show ?thesis using ni by (simp add: insort_insert_insort)
qed

lemma fold_init_step_distinct:
  "distinct js \<Longrightarrow> distinct (map snd (snd acc)) \<Longrightarrow> snd ` set (snd acc) \<inter> set js = {} \<Longrightarrow>
   distinct (map snd (snd (fold (init_step tb r) js acc))) \<and>
   snd ` set (snd (fold (init_step tb r) js acc)) \<subseteq> snd ` set (snd acc) \<union> set js"
proof (induction js arbitrary: acc)
  case Nil
  then show ?case by simp
next
  case (Cons j js)
  let ?acc = "init_step tb r j acc"
  have d: "distinct (map snd (snd ?acc))"
    using Cons.prems by (auto simp: init_step_snd distinct_map_snd_insort split: option.splits)
  have s: "snd ` set (snd ?acc) \<subseteq> insert j (snd ` set (snd acc))"
    by (auto simp: init_step_snd set_insort_insert split: option.splits)
  have "snd ` set (snd ?acc) \<inter> set js = {}"
    using s Cons.prems by auto
  from Cons.IH[OF _ d this] Cons.prems(1)
  have d': "distinct (map snd (snd (fold (init_step tb r) js ?acc)))"
    and s': "snd ` set (snd (fold (init_step tb r) js ?acc)) \<subseteq> snd ` set (snd ?acc) \<union> set js"
    by auto
  have "snd ` set (snd (fold (init_step tb r) js ?acc)) \<subseteq> snd ` set (snd acc) \<union> set (j # js)"
    using s s' by (simp only: set_simps) blast
  with d' show ?case by simp
qed

lemma init_loop_distinct: "distinct (map snd (snd (init_loop t tb r)))"
  unfolding init_loop_def
  using fold_init_step_distinct[of "[1..tree_n t]" "([], [])" tb r] by simp

text \<open>The centres that the greedy loop appends are the vertices of the entries it
  popped, in the order of the set.\<close>

lemma greedy_centers:
  "greedy srt tb C k r iter st U cs asg = Inr (U', cs', asg') \<Longrightarrow>
   \<exists>j \<le> length st. cs' = cs @ map snd (take j st)"
proof (induction st arbitrary: iter U cs asg)
  case Nil
  then show ?case by (auto split: if_splits)
next
  case (Cons e st)
  show ?case
  proof (cases "U \<noteq> [] \<and> iter < k")
    case True
    obtain asg1 U1 where a:
      "assign_all (snd e) (cap_resize C (reachable_sorted srt tb r (snd e) U)) (asg, U) = (asg1, U1)"
      by (cases "assign_all (snd e) (cap_resize C (reachable_sorted srt tb r (snd e) U)) (asg, U)")
    from Cons.prems True a
    have "greedy srt tb C k r (iter + 1) st U1 (cs @ [snd e]) asg1 = Inr (U', cs', asg')"
      by (simp add: Let_def)
    from Cons.IH[OF this] obtain j
      where "j \<le> length st" "cs' = (cs @ [snd e]) @ map snd (take j st)"
      by blast
    then have "Suc j \<le> length (e # st) \<and> cs' = cs @ map snd (take (Suc j) (e # st))" by simp
    then show ?thesis by blast
  next
    case False
    with Cons.prems have "cs' = cs" by auto
    then show ?thesis by (intro exI[of _ 0]) simp
  qed
qed

lemma check_centers_distinct:
  assumes "check srt t tb C k r asg = Inr (ok, cs, asg')"
  shows "distinct cs"
proof -
  from assms obtain U
    where "greedy srt tb C k r 0 (snd (init_loop t tb r)) [1..tree_n t] [] asg = Inr (U, cs, asg')"
    by (auto simp: check_def split: sum.splits)
  from greedy_centers[OF this] obtain j where "cs = map snd (take j (snd (init_loop t tb r)))"
    by auto
  then show ?thesis
    using init_loop_distinct[of t tb r] by (simp add: take_map[symmetric] distinct_take)
qed

lemma k_centers_distinct:
  "k_centers cv srt fuel t C k = Inr (r, cs, asg) \<Longrightarrow> distinct cs"
  by (auto simp: k_centers_def split: if_splits option.splits sum.splits
           dest: check_centers_distinct)

section \<open>Paths\<close>

lemma walk_in_verts:
  assumes "adjacency_ok t" "walk t xs" "xs \<noteq> []" "hd xs \<in> verts t"
  shows "set xs \<subseteq> verts t"
  using assms(2-4)
proof (induction xs)
  case Nil
  then show ?case by simp
next
  case (Cons a xs)
  show ?case
  proof (cases xs)
    case Nil
    with Cons.prems show ?thesis by simp
  next
    case (Cons b ys)
    with Cons.prems have ab: "b \<in> set (nbrs t a)" and w: "walk t xs" and a: "a \<in> verts t"
      by (auto simp: walk_def)
    from ab a assms(1) have "b \<in> verts t"
      by (auto simp: adjacency_ok_def nbrs_def)
    with Cons.IH[OF w] Cons a show ?thesis by simp
  qed
qed

lemma path_in_verts:
  "adjacency_ok t \<Longrightarrow> path t a b xs \<Longrightarrow> a \<in> verts t \<Longrightarrow> set xs \<subseteq> verts t"
  using walk_in_verts[of t xs] by (auto simp: path_def)

lemma path_length:
  assumes "adjacency_ok t" "path t a b xs" "a \<in> verts t"
  shows "length xs \<le> nat (tree_n t)"
proof -
  have "set xs \<subseteq> {1..tree_n t}" using path_in_verts[OF assms] by (simp add: verts_def)
  then have "card (set xs) \<le> card {1..tree_n t}" by (intro card_mono) auto
  moreover have "distinct xs" using assms(2) by (simp add: path_def)
  ultimately show ?thesis by (simp add: distinct_card)
qed

lemma path_single: "path t a a [a]"
  by (simp add: path_def walk_def)

lemma path_end_in_verts:
  "adjacency_ok t \<Longrightarrow> path t a b xs \<Longrightarrow> a \<in> verts t \<Longrightarrow> b \<in> verts t"
  using path_in_verts[of t a b xs] by (auto simp: path_def)

lemma wt_edge:
  assumes "adjacency_ok t" "s \<in> verts t" "e \<in> set (tree_con t s)"
  shows "wt t s (fst e) = snd e"
proof -
  from assms have "distinct (map fst (tree_con t s))" by (auto simp: adjacency_ok_def nbrs_def)
  moreover have "(fst e, snd e) \<in> set (tree_con t s)" using assms(3) by simp
  ultimately have "map_of (tree_con t s) (fst e) = Some (snd e)"
    by (rule map_of_is_SomeI)
  then show ?thesis by (simp add: wt_def)
qed

lemma wt_sym:
  fixes t :: "int tree"
  assumes "adjacency_ok t" "s \<in> verts t" "v \<in> set (nbrs t s)"
  shows "wt t v s = wt t s v" and "s \<in> set (nbrs t v)" and "v \<in> verts t" and "v \<noteq> s"
proof -
  from assms(3) obtain e where e: "e \<in> set (tree_con t s)" "fst e = v" by (auto simp: nbrs_def)
  with assms show v: "v \<in> verts t" and "v \<noteq> s" by (auto simp: adjacency_ok_def)
  from e assms have b: "(s, snd e) \<in> set (tree_con t v)" by (auto simp: adjacency_ok_def)
  then show "s \<in> set (nbrs t v)" by (force simp: nbrs_def)
  from wt_edge[OF assms(1) v b] wt_edge[OF assms(1,2) e(1)] e(2)
  show "wt t v s = wt t s v" by simp
qed

lemma pw_snoc: "pw t (xs @ [a, b]) = pw t (xs @ [a]) + wt t a (b) "
  for t :: "int tree"
  by (induction t xs rule: pw.induct) (auto)

lemma pw_append: "pw t (xs @ a # ys) = pw t (xs @ [a]) + pw t (a # ys)"
  for t :: "int tree"
  by (induction t xs rule: pw.induct) auto

lemma walk_rev:
  fixes t :: "int tree"
  assumes "adjacency_ok t" "walk t xs" "set xs \<subseteq> verts t"
  shows "walk t (rev xs)"
proof -
  have "successively (\<lambda>x y. x \<in> set (nbrs t y)) xs"
    using assms(2)[unfolded walk_def]
  proof (rule successively_mono)
    fix x y assume "x \<in> set xs" "y \<in> set xs" "y \<in> set (nbrs t x)"
    with assms(1,3) show "x \<in> set (nbrs t y)" using wt_sym(2)[of t x y] by blast
  qed
  then show ?thesis by (simp add: walk_def)
qed

lemma pw_rev:
  fixes t :: "int tree"
  shows "adjacency_ok t \<Longrightarrow> walk t xs \<Longrightarrow> set xs \<subseteq> verts t \<Longrightarrow> pw t (rev xs) = pw t xs"
proof (induction t xs rule: pw.induct)
  case (3 t' a b xs)
  then have ab: "b \<in> set (nbrs t' a)" and a: "a \<in> verts t'" and w': "walk t' (b # xs)"
    and sub': "set (b # xs) \<subseteq> verts t'"
    by (auto simp: walk_def)
  have "pw t' (rev (a # b # xs)) = pw t' (rev xs @ [b, a])" by simp
  also have "\<dots> = pw t' (rev (b # xs)) + wt t' b a" by (simp add: pw_snoc)
  also have "\<dots> = pw t' (b # xs) + wt t' a b"
    using 3 w' sub' wt_sym(1)[OF _ a ab] by simp
  finally show ?case by simp
qed auto

lemma path_rev:
  fixes t :: "int tree"
  assumes "adjacency_ok t" "path t a b xs" "a \<in> verts t"
  shows "path t b a (rev xs)" and "pw t (rev xs) = pw t xs"
proof -
  have sub: "set xs \<subseteq> verts t" using path_in_verts[OF assms] .
  have w: "walk t xs" using assms(2) by (auto simp: path_def)
  show "path t b a (rev xs)"
    using assms(2) walk_rev[OF assms(1) w sub] by (auto simp: path_def hd_rev last_rev)
  show "pw t (rev xs) = pw t xs" using pw_rev[OF assms(1) w sub] .
qed

lemma pw_nonneg:
  fixes t :: "int tree"
  shows "weights_nonneg t \<Longrightarrow> adjacency_ok t \<Longrightarrow> walk t xs \<Longrightarrow> set xs \<subseteq> verts t \<Longrightarrow> 0 \<le> pw t xs"
proof (induction t xs rule: pw.induct)
  case (3 t' a b xs)
  then have ab: "b \<in> set (nbrs t' a)" and a: "a \<in> verts t'" and w': "walk t' (b # xs)"
    and sub': "set (b # xs) \<subseteq> verts t'"
    by (auto simp: walk_def)
  from ab obtain e where e: "e \<in> set (tree_con t' a)" "fst e = b" by (auto simp: nbrs_def)
  have "0 \<le> snd e" using "3.prems"(1) a e(1) by (auto simp: weights_nonneg_def)
  then have "0 \<le> wt t' a b" using wt_edge[OF "3.prems"(2) a e(1)] e(2) by simp
  moreover have "0 \<le> pw t' (b # xs)" using 3 w' sub' by simp
  ultimately show ?case by simp
qed auto

lemma path_pw_nonneg:
  fixes t :: "int tree"
  assumes "weights_nonneg t" "adjacency_ok t" "path t a b xs" "a \<in> verts t"
  shows "0 \<le> pw t xs"
  using pw_nonneg[OF assms(1,2)] path_in_verts[OF assms(2,3,4)] assms(3) by (simp add: path_def)

section \<open>The traversal of a tree\<close>

text \<open>
  The recursion keeps the path from the start to the current vertex on its stack. On a
  tree a depth of \<open>n\<close> is enough, and every store into \<^verbatim>\<open>D\<close> writes the weight of
  the path, when the conversion \<open>cv\<close> changes no weight of a path: no sum of the
  traversal leaves the type \<^verbatim>\<open>int\<close>.
\<close>

lemma D_tab_visit:
  "D_tab (visit cv beg s p d tb) a x = (if a = beg \<and> x = s then cv d else D_tab tb a x)"
  by (simp add: visit_def Let_def)

lemma distances_visit:
  "distances (visit cv beg s p d tb) = (if beg < s then distances tb @ [d] else distances tb)"
  by (simp add: visit_def Let_def)

lemma ancestors_visit:
  "ancestors (visit cv beg s p d tb) x =
     (if beg = root_vertex \<and> x = s
      then (if p \<noteq> - 1 then ancestors tb p else ancestors tb s) @ [s]
      else ancestors tb x)"
  by (simp add: visit_def Let_def)

lemma path_unique:
  "is_tree t \<Longrightarrow> a \<in> verts t \<Longrightarrow> b \<in> verts t \<Longrightarrow> path t a b xs \<Longrightarrow> path t a b ys \<Longrightarrow> xs = ys"
  unfolding is_tree_def by blast

lemma visit_later:
  fixes t :: "int tree"
  assumes T: "is_tree t" and P: "path t beg s xs" and b: "beg \<in> verts t" and d: "d = pw t xs"
    and cvd: "cv d = d"
  shows "later t tb (visit cv beg s p d tb)"
    and "goodD t (visit cv beg s p d tb) beg s"
    and "beg = root_vertex \<Longrightarrow> goodA (visit cv beg s p d tb) s"
proof -
  have adj: "adjacency_ok t" using T by (simp add: is_tree_def)
  have s: "s \<in> verts t" using path_end_in_verts[OF adj P b] .
  show g: "goodD t (visit cv beg s p d tb) beg s"
    unfolding goodD_def
  proof (intro allI impI)
    fix ys assume "path t beg s ys"
    then have "ys = xs" using path_unique[OF T b s _ P] by blast
    then show "D_tab (visit cv beg s p d tb) beg s = pw t ys \<and>
          (beg < s \<longrightarrow> pw t ys \<in> set (distances (visit cv beg s p d tb)))"
      using d cvd by (simp add: D_tab_visit distances_visit)
  qed
  show "beg = root_vertex \<Longrightarrow> goodA (visit cv beg s p d tb) s"
    by (simp add: goodA_def ancestors_visit)
  show "later t tb (visit cv beg s p d tb)"
    unfolding later_def
  proof (intro conjI allI impI)
    fix a x assume h: "goodD t tb a x"
    show "goodD t (visit cv beg s p d tb) a x"
    proof (cases "a = beg \<and> x = s")
      case True
      then show ?thesis using g by simp
    next
      case False
      then show ?thesis using h
        by (auto simp: goodD_def D_tab_visit distances_visit)
    qed
  next
    fix x assume "goodA tb x"
    then show "goodA (visit cv beg s p d tb) x"
      by (auto simp: goodA_def ancestors_visit)
  next
    assume "weights_nonneg t \<and> (\<forall>d \<in> set (distances tb). 0 \<le> d)"
    then show "\<forall>d \<in> set (distances (visit cv beg s p d tb)). 0 \<le> d"
      using path_pw_nonneg[OF _ adj P b] d by (auto simp: distances_visit)
  qed
qed

lemma later_refl: "later t tb tb"
  by (simp add: later_def)

lemma later_trans: "later t tb1 tb2 \<Longrightarrow> later t tb2 tb3 \<Longrightarrow> later t tb1 tb3"
  unfolding later_def by blast

lemma covers_later: "covers t tb beg p \<Longrightarrow> later t tb tb' \<Longrightarrow> covers t tb' beg p"
  unfolding covers_def later_def by blast

text \<open>A neighbour of the top of the stack other than the vertex below it is not on the stack.\<close>

lemma child_fresh:
  fixes t :: "int tree"
  assumes T: "is_tree t" and P: "path t beg s (rho @ [s])" and b: "beg \<in> verts t"
    and e: "v \<in> set (nbrs t s)" and vp: "v \<noteq> (if rho = [] then - 1 else last rho)"
  shows "v \<notin> set (rho @ [s])"
proof
  assume vin: "v \<in> set (rho @ [s])"
  have adj: "adjacency_ok t" using T by (simp add: is_tree_def)
  have sub: "set (rho @ [s]) \<subseteq> verts t" using path_in_verts[OF adj P b] .
  then have s: "s \<in> verts t" by simp
  have vs: "v \<noteq> s" and sv: "s \<in> set (nbrs t v)" and v: "v \<in> verts t"
    using wt_sym[OF adj s e] by auto
  from vin vs have "v \<in> set rho" by simp
  then obtain al be where rho: "rho = al @ v # be" by (meson split_list)
  have d: "distinct (rho @ [s])" and w: "walk t (rho @ [s])" using P by (auto simp: path_def)
  have "walk t (v # be @ [s])"
    using w unfolding walk_def rho by (simp add: successively_append_iff)
  then have p1: "path t v s (v # be @ [s])"
    using d unfolding rho by (auto simp: path_def)
  have p2: "path t v s [v, s]" using vs sv by (simp add: path_def walk_def)
  have "v # be @ [s] = [v, s]" using path_unique[OF T v s p1 p2] .
  then have "be = []" by simp
  with rho vp show False by simp
qed

lemma dfs_tree:
  fixes t :: "int tree"
  assumes T: "is_tree t" and b: "beg \<in> verts t"
    and ex: "\<And>x xs. path t beg x xs \<Longrightarrow> cv (pw t xs) = pw t xs"
  shows "path t beg s (rho @ [s]) \<Longrightarrow> p = (if rho = [] then - 1 else last rho) \<Longrightarrow>
         d = pw t (rho @ [s]) \<Longrightarrow> nat (tree_n t) < fuel + length (rho @ [s]) \<Longrightarrow>
         \<exists>tb'. dfs cv fuel t beg s p d tb = Some tb' \<and> later t tb tb' \<and>
               covers t tb' beg (rho @ [s])"
proof (induction fuel arbitrary: s rho p d tb)
  case 0
  have adj: "adjacency_ok t" using T by (simp add: is_tree_def)
  from path_length[OF adj "0.prems"(1) b] "0.prems"(4) show ?case by simp
next
  case (Suc fuel)
  have adj: "adjacency_ok t" using T by (simp add: is_tree_def)
  let ?pi = "rho @ [s]"
  have P: "path t beg s ?pi" using Suc.prems(1) .
  have sub: "set ?pi \<subseteq> verts t" using path_in_verts[OF adj P b] .
  then have s: "s \<in> verts t" by simp
  have children: "set vs \<subseteq> set (tree_con t s) \<Longrightarrow>
      \<exists>tb'. dfs_children cv fuel t beg s p d vs tb0 = Some tb' \<and> later t tb0 tb' \<and>
            (\<forall>e \<in> set vs. fst e \<noteq> p \<longrightarrow> covers t tb' beg (?pi @ [fst e]))" for vs tb0
  proof (induction vs arbitrary: tb0)
    case Nil
    then show ?case by (simp add: later_refl)
  next
    case (Cons e vs)
    have ein: "e \<in> set (tree_con t s)" and vsin: "set vs \<subseteq> set (tree_con t s)"
      using Cons.prems by auto
    show ?case
    proof (cases "fst e \<noteq> p")
      case True
      have nb: "fst e \<in> set (nbrs t s)" using ein by (simp add: nbrs_def)
      have fresh: "fst e \<notin> set ?pi"
        using child_fresh[OF T P b nb] True Suc.prems(2) by simp
      have w: "walk t (?pi @ [fst e])"
        using P nb by (simp add: path_def walk_def successively_append_iff)
      have P': "path t beg (fst e) (?pi @ [fst e])"
        using P fresh w by (cases rho) (auto simp: path_def)
      have d': "d + snd e = pw t (?pi @ [fst e])"
        using Suc.prems(3) wt_edge[OF adj s ein] pw_snoc[of t rho s "fst e"] by simp
      have cv': "cv (d + snd e) = d + snd e" using ex[OF P'] d' by simp
      have "\<exists>tb'. dfs cv fuel t beg (fst e) s (d + snd e) tb0 = Some tb' \<and> later t tb0 tb' \<and>
               covers t tb' beg (?pi @ [fst e])"
        using Suc.IH[of "fst e" ?pi s "d + snd e" tb0] P' d' Suc.prems(4) by simp
      then obtain tb1 where 1: "dfs cv fuel t beg (fst e) s (d + snd e) tb0 = Some tb1"
        and l1: "later t tb0 tb1" and c1: "covers t tb1 beg (?pi @ [fst e])" by blast
      from Cons.IH[OF vsin, of tb1] obtain tb2
        where 2: "dfs_children cv fuel t beg s p d vs tb1 = Some tb2"
          and l2: "later t tb1 tb2"
          and c2: "\<forall>e \<in> set vs. fst e \<noteq> p \<longrightarrow> covers t tb2 beg (?pi @ [fst e])" by blast
      have "dfs_children cv fuel t beg s p d (e # vs) tb0 = Some tb2"
        using True 1 2 cv' by simp
      moreover have "later t tb0 tb2" using later_trans[OF l1 l2] .
      moreover have "covers t tb2 beg (?pi @ [fst e])" using covers_later[OF c1 l2] .
      ultimately show ?thesis using c2 by auto
    next
      case False
      from Cons.IH[OF vsin, of tb0] obtain tb2
        where 2: "dfs_children cv fuel t beg s p d vs tb0 = Some tb2"
          and l2: "later t tb0 tb2"
          and c2: "\<forall>e \<in> set vs. fst e \<noteq> p \<longrightarrow> covers t tb2 beg (?pi @ [fst e])" by blast
      have "dfs_children cv fuel t beg s p d (e # vs) tb0 = Some tb2"
        using False 2 by simp
      then show ?thesis using l2 c2 False by auto
    qed
  qed
  let ?tb1 = "visit cv beg s p d tb"
  from children[of "tree_con t s" ?tb1] obtain tb'
    where r: "dfs_children cv fuel t beg s p d (tree_con t s) ?tb1 = Some tb'"
      and l: "later t ?tb1 tb'"
      and c: "\<forall>e \<in> set (tree_con t s). fst e \<noteq> p \<longrightarrow> covers t tb' beg (?pi @ [fst e])"
    by blast
  have v: "later t tb ?tb1" "goodD t ?tb1 beg s" "beg = root_vertex \<Longrightarrow> goodA ?tb1 s"
    using visit_later[OF T P b Suc.prems(3)] ex[OF P] Suc.prems(3) by auto
  have "covers t tb' beg ?pi"
    unfolding covers_def
  proof (intro allI impI)
    fix x ys assume px: "path t beg x (?pi @ ys)"
    show "goodD t tb' beg x \<and> (beg = root_vertex \<longrightarrow> goodA tb' x)"
    proof (cases ys)
      case Nil
      with px have "x = s" by (simp add: path_def)
      then show ?thesis using v l by (auto simp: later_def)
    next
      case (Cons y zs)
      have wx: "walk t (rho @ s # y # zs)" and dx: "distinct (rho @ s # y # zs)"
        using px Cons by (auto simp: path_def)
      from wx have nb: "y \<in> set (nbrs t s)"
        by (simp add: walk_def successively_append_iff)
      then obtain e where e: "e \<in> set (tree_con t s)" "fst e = y" by (auto simp: nbrs_def)
      have "y \<in> verts t" using wt_sym(3)[OF adj s nb] .
      then have "y \<noteq> - 1" by (simp add: verts_def)
      moreover have "rho \<noteq> [] \<Longrightarrow> y \<noteq> last rho"
        using dx last_in_set[of rho] by auto
      ultimately have "y \<noteq> p" using Suc.prems(2) by simp
      with c e have "covers t tb' beg (?pi @ [y])" by blast
      moreover have "path t beg x ((?pi @ [y]) @ zs)" using px Cons by simp
      ultimately show ?thesis unfolding covers_def by blast
    qed
  qed
  moreover have "later t tb tb'" using later_trans[OF v(1) l] .
  moreover have "dfs cv (Suc fuel) t beg s p d tb = Some tb'" using r by simp
  ultimately show ?case by blast
qed

lemma dfs_all_tree:
  fixes t :: "int tree"
  assumes T: "is_tree t" and f: "nat (tree_n t) \<le> fuel"
    and ex: "\<And>a x xs. a \<in> verts t \<Longrightarrow> path t a x xs \<Longrightarrow> cv (pw t xs) = pw t xs"
  shows "set js \<subseteq> verts t \<Longrightarrow>
         \<exists>tb'. dfs_all cv fuel t js tb = Some tb' \<and> later t tb tb' \<and>
               (\<forall>i \<in> set js. covers t tb' i [i])"
proof (induction js arbitrary: tb)
  case Nil
  then show ?case by (simp add: later_refl)
next
  case (Cons i js)
  then have i: "i \<in> verts t" and js: "set js \<subseteq> verts t" by auto
  have "\<exists>tb'. dfs cv fuel t i i (- 1) 0 tb = Some tb' \<and> later t tb tb' \<and> covers t tb' i ([] @ [i])"
    using dfs_tree[OF T i ex[OF i], where s=i and rho="[]" and p="- 1" and d=0 and fuel=fuel
        and tb=tb] f
    by (simp add: path_single)
  then obtain tb1 where 1: "dfs cv fuel t i i (- 1) 0 tb = Some tb1"
    and l1: "later t tb tb1" and c1: "covers t tb1 i [i]" by auto
  from Cons.IH[OF js, of tb1] obtain tb2
    where 2: "dfs_all cv fuel t js tb1 = Some tb2" and l2: "later t tb1 tb2"
      and c2: "\<forall>i \<in> set js. covers t tb2 i [i]" by blast
  have "dfs_all cv fuel t (i # js) tb = Some tb2" using 1 2 by simp
  moreover have "later t tb tb2" using later_trans[OF l1 l2] .
  moreover have "covers t tb2 i [i]" using covers_later[OF c1 l2] .
  ultimately show ?case using c2 by auto
qed

lemma precompute_tree:
  fixes t :: "int tree"
  assumes T: "is_tree t" and f: "nat (tree_n t) \<le> fuel"
    and ex: "\<And>a x xs. a \<in> verts t \<Longrightarrow> path t a x xs \<Longrightarrow> cv (pw t xs) = pw t xs"
  shows "\<exists>tb. precompute cv fuel t = Some tb \<and> tables_ok t tb"
proof -
  have adj: "adjacency_ok t" using T by (simp add: is_tree_def)
  have "set [1..tree_n t] \<subseteq> verts t" by (simp add: verts_def)
  have "\<exists>tb'. dfs_all cv fuel t [1..tree_n t] tables_init = Some tb' \<and> later t tables_init tb' \<and>
          (\<forall>i \<in> set [1..tree_n t]. covers t tb' i [i])"
  proof (rule dfs_all_tree[OF T f])
    show "cv (pw t xs) = pw t xs" if "a \<in> verts t" "path t a x xs" for a x xs
      using ex[OF that] .
    show "set [1..tree_n t] \<subseteq> verts t" by fact
  qed
  then obtain tb0
    where r: "dfs_all cv fuel t [1..tree_n t] tables_init = Some tb0"
      and l: "later t tables_init tb0"
      and c: "\<forall>i \<in> verts t. covers t tb0 i [i]"
    by (auto simp: verts_def)
  let ?tb = "tb0\<lparr>distances := sort (distances tb0)\<rparr>"
  have p: "precompute cv fuel t = Some ?tb" using r by (simp add: precompute_def)
  have root_vertex: "root_vertex \<in> verts t" using T by (simp add: is_tree_def verts_def root_vertex_def)
  have g: "goodD t tb0 a b \<and> (a = root_vertex \<longrightarrow> goodA tb0 b)" if "a \<in> verts t" "b \<in> verts t" for a b
  proof -
    from T that obtain xs where xs: "path t a b xs" unfolding is_tree_def by blast
    then have "xs = [a] @ tl xs" by (cases xs) (auto simp: path_def)
    with xs have "path t a b ([a] @ tl xs)" by simp
    with c that(1) show ?thesis unfolding covers_def by blast
  qed
  have "tables_ok t ?tb"
    unfolding tables_ok_def
  proof (intro conjI ballI allI impI)
    show "sorted (distances ?tb)" by simp
  next
    fix x assume "x \<in> verts t"
    then show "x \<in> set (ancestors ?tb x)" using g[OF root_vertex] by (simp add: goodA_def)
  next
    fix a b xs assume "a \<in> verts t" "b \<in> verts t" "path t a b xs"
    then show "D_tab ?tb a b = pw t xs" using g[of a b] by (simp add: goodD_def)
  next
    fix a b assume ab: "a \<in> verts t" "b \<in> verts t" "a < b"
    from T ab obtain xs where xs: "path t a b xs" unfolding is_tree_def by blast
    then show "D_tab ?tb a b \<in> set (distances ?tb)" using g[of a b] ab by (simp add: goodD_def)
  next
    fix d assume "weights_nonneg t" "d \<in> set (distances ?tb)"
    then show "0 \<le> d" using l by (simp add: later_def tables_init_def)
  qed
  with p show ?thesis by blast
qed

text \<open>The two conversions of \<^verbatim>\<open>tree<int>\<close>: the identity, and the wrap on a tree
  whose paths have weights within the type.\<close>

lemma wrap32_id: "int_range x \<Longrightarrow> wrap32 x = x"
  by (simp add: wrap32_def int_range_def)

lemma precompute_tree_int:
  fixes t :: "int tree"
  assumes "is_tree t" and "nat (tree_n t) \<le> fuel"
    and "\<And>a x xs. a \<in> verts t \<Longrightarrow> path t a x xs \<Longrightarrow> int_range (pw t xs)"
  shows "\<exists>tb. precompute wrap32 fuel t = Some tb \<and> tables_ok t tb"
    and "\<exists>tb. precompute (\<lambda>x. x) fuel t = Some tb \<and> tables_ok t tb"
proof -
  show "\<exists>tb. precompute wrap32 fuel t = Some tb \<and> tables_ok t tb"
    by (rule precompute_tree[OF assms(1,2)]) (rule wrap32_id, rule assms(3))
  show "\<exists>tb. precompute (\<lambda>x. x) fuel t = Some tb \<and> tables_ok t tb"
    by (rule precompute_tree[OF assms(1,2)]) simp
qed

section \<open>The greedy loop\<close>

lemma reachable_mset:
  assumes "std_sort_ok srt"
  shows "mset (reachable_sorted srt tb radius center U)
           = mset (filter (\<lambda>it. of_int (D_tab tb center it) \<le> radius) U)"
    and "sorted_wrt (\<lambda>a b. D_tab tb root_vertex a \<ge> D_tab tb root_vertex b)
           (reachable_sorted srt tb radius center U)"
  using assms unfolding std_sort_ok_def reachable_sorted_def by (simp_all add: not_less)

lemma reachable_set:
  assumes "std_sort_ok srt"
  shows "set (reachable_sorted srt tb radius center U)
           = {v \<in> set U. of_int (D_tab tb center v) \<le> radius}"
proof -
  have "set (reachable_sorted srt tb radius center U)
      = set_mset (mset (filter (\<lambda>it. of_int (D_tab tb center it) \<le> radius) U))"
    using reachable_mset(1)[OF assms, of tb radius center U] by (metis set_mset_mset)
  then show ?thesis by auto
qed

lemma reachable_distinct:
  assumes "std_sort_ok srt" "distinct U"
  shows "distinct (reachable_sorted srt tb radius center U)"
proof -
  have "distinct (filter (\<lambda>it. of_int (D_tab tb center it) \<le> radius) U)"
    using assms(2) by simp
  then show ?thesis
    using reachable_mset(1)[OF assms(1), of tb radius center U]
    by (metis mset_eq_imp_distinct_iff)
qed

lemma resize_set: "set (cap_resize C xs) \<subseteq> set xs"
  by (auto simp: cap_resize_def dest: in_set_takeD)

lemma resize_distinct: "distinct xs \<Longrightarrow> distinct (cap_resize C xs)"
  by (simp add: cap_resize_def)

lemma resize_length: "0 \<le> C \<Longrightarrow> length (cap_resize C xs) = min (nat C) (length xs)"
  by (auto simp: cap_resize_def)

lemma assign_all_eq:
  "assign_all c R (asg, U) = ((\<lambda>v. if v \<in> set R then c else asg v), fold remove1 R U)"
proof (induction R arbitrary: asg U)
  case Nil
  then show ?case by (simp add: assign_all_def)
next
  case (Cons x R)
  have "assign_all c (x # R) (asg, U) = assign_all c R (asg(x := c), remove1 x U)"
    by (simp add: assign_all_def)
  also have "\<dots> = ((\<lambda>v. if v \<in> set R then c else (asg(x := c)) v), fold remove1 R (remove1 x U))"
    using Cons.IH .
  finally show ?case by (auto simp: fun_eq_iff)
qed

lemma fold_remove1_filter:
  "distinct U \<Longrightarrow> fold remove1 R U = filter (\<lambda>x. x \<notin> set R) U"
proof (induction R arbitrary: U)
  case Nil
  then show ?case by simp
next
  case (Cons x R)
  have "remove1 x U = filter (\<lambda>y. x \<noteq> y) U"
    using Cons.prems by (simp add: distinct_remove1_removeAll removeAll_filter_not_eq)
  moreover have "distinct (remove1 x U)" using Cons.prems by simp
  ultimately show ?case using Cons.IH[of "remove1 x U"] by (auto intro: filter_cong)
qed

lemma ginv_step:
  assumes srt: "std_sort_ok srt" and fin: "finite V" and C: "0 \<le> C"
    and inv: "ginv V tb C r U cs asg" and cV: "c \<in> V" and ccs: "c \<notin> set cs"
    and R: "R = cap_resize C (reachable_sorted srt tb r c U)"
  shows "ginv V tb C r (filter (\<lambda>x. x \<notin> set R) U) (cs @ [c]) (\<lambda>v. if v \<in> set R then c else asg v)"
proof -
  have U: "set U \<subseteq> V" "distinct U" and csV: "set cs \<subseteq> V"
    and old: "\<And>v. v \<in> V \<Longrightarrow> v \<notin> set U \<Longrightarrow> asg v \<in> set cs \<and> D_tab tb (asg v) v \<le> r"
    and cap: "\<And>c. card {v \<in> V. v \<notin> set U \<and> asg v = c} \<le> nat C"
    using inv by (auto simp: ginv_def)
  have RU: "set R \<subseteq> set U" and Rr: "\<And>v. v \<in> set R \<Longrightarrow> D_tab tb c v \<le> r"
    using resize_set[of C "reachable_sorted srt tb r c U"] reachable_set[OF srt, of tb r c U]
    unfolding R by auto
  have Rd: "distinct R" unfolding R using reachable_distinct[OF srt U(2)] resize_distinct by blast
  have Rl: "length R \<le> nat C" unfolding R using resize_length[OF C] by simp
  let ?U = "filter (\<lambda>x. x \<notin> set R) U" and ?asg = "\<lambda>v. if v \<in> set R then c else asg v"
  have capn: "card {v \<in> V. v \<notin> set ?U \<and> ?asg v = c'} \<le> nat C" for c'
  proof (cases "c' = c")
    case True
    have "{v \<in> V. v \<notin> set ?U \<and> ?asg v = c'} \<subseteq> set R"
      using True old ccs by auto
    then have "card {v \<in> V. v \<notin> set ?U \<and> ?asg v = c'} \<le> card (set R)"
      by (intro card_mono) auto
    also have "\<dots> \<le> length R" by (rule card_length)
    finally show ?thesis using Rl by simp
  next
    case False
    have "{v \<in> V. v \<notin> set ?U \<and> ?asg v = c'} \<subseteq> {v \<in> V. v \<notin> set U \<and> asg v = c'}"
      using False by auto
    then have "card {v \<in> V. v \<notin> set ?U \<and> ?asg v = c'} \<le> card {v \<in> V. v \<notin> set U \<and> asg v = c'}"
      using fin by (intro card_mono) auto
    then show ?thesis using cap[of c'] by simp
  qed
  have "\<forall>v \<in> V - set ?U. ?asg v \<in> set (cs @ [c]) \<and> D_tab tb (?asg v) v \<le> r"
    using old Rr RU by auto
  then show ?thesis
    unfolding ginv_def using U csV cV capn by auto
qed

lemma greedy_step:
  assumes "U \<noteq> [] \<and> iter < k" "distinct U"
  shows "greedy srt tb C k r iter (e # st) U cs asg =
         greedy srt tb C k r (iter + 1) st
           (filter (\<lambda>x. x \<notin> set (cap_resize C (reachable_sorted srt tb r (snd e) U))) U)
           (cs @ [snd e])
           (\<lambda>v. if v \<in> set (cap_resize C (reachable_sorted srt tb r (snd e) U)) then snd e else asg v)"
  using assms by (simp add: Let_def assign_all_eq fold_remove1_filter)

lemma greedy_inv:
  assumes srt: "std_sort_ok srt" and fin: "finite V" and C: "0 \<le> C"
  shows "greedy srt tb C k r iter st U cs asg = Inr (U', cs', asg') \<Longrightarrow>
         distinct (map snd st) \<Longrightarrow> snd ` set st \<subseteq> V \<Longrightarrow> set cs \<inter> snd ` set st = {} \<Longrightarrow>
         ginv V tb C r U cs asg \<Longrightarrow>
         ginv V tb C r U' cs' asg' \<and> int (length cs') \<le> int (length cs) + max 0 (k - iter)"
proof (induction st arbitrary: iter U cs asg)
  case Nil
  then show ?case by (auto split: if_splits)
next
  case (Cons e st)
  show ?case
  proof (cases "U \<noteq> [] \<and> iter < k")
    case True
    have dU: "distinct U" using Cons.prems(5) by (simp add: ginv_def)
    let ?R = "cap_resize C (reachable_sorted srt tb r (snd e) U)"
    let ?U = "filter (\<lambda>x. x \<notin> set ?R) U" and ?asg = "\<lambda>v. if v \<in> set ?R then snd e else asg v"
    have g: "greedy srt tb C k r (iter + 1) st ?U (cs @ [snd e]) ?asg = Inr (U', cs', asg')"
      using Cons.prems(1) unfolding greedy_step[OF True dU] .
    have cV: "snd e \<in> V" using Cons.prems(3) by auto
    have ccs: "snd e \<notin> set cs" using Cons.prems(4) by auto
    have i: "ginv V tb C r ?U (cs @ [snd e]) ?asg"
      using ginv_step[OF srt fin C Cons.prems(5) cV ccs refl] .
    have d: "distinct (map snd st)" and s: "snd ` set st \<subseteq> V" and n: "snd e \<notin> snd ` set st"
      using Cons.prems(2,3) by auto
    have dj: "set (cs @ [snd e]) \<inter> snd ` set st = {}" using Cons.prems(4) n by auto
    from Cons.IH[OF g d s dj i] True show ?thesis by auto
  next
    case False
    with Cons.prems show ?thesis by auto
  qed
qed

section \<open>The check and the search\<close>

lemma covering_Some:
  fixes t :: "int tree"
  assumes "tables_ok t tb" "i \<in> verts t" "0 \<le> r"
  shows "covering tb r i \<noteq> None"
proof -
  have "i \<in> set (ancestors tb i)" using assms(1,2) by (simp add: tables_ok_def)
  then show ?thesis using assms(3) by (auto simp: covering_def find_None_iff)
qed

lemma init_loop_verts: "snd ` set (snd (init_loop t tb r)) \<subseteq> verts t"
  unfolding init_loop_def verts_def
  using fold_init_step_distinct[of "[1..tree_n t]" "([], [])" tb r] by simp

lemma check_post:
  fixes t :: "int tree"
  assumes srt: "std_sort_ok srt" and C: "0 \<le> C" and k: "0 \<le> k"
    and c: "check srt t tb C k r asg = Inr (True, cs, asg')"
  shows "int (length cs) \<le> k" and "set cs \<subseteq> verts t"
    and "\<forall>v \<in> verts t. asg' v \<in> set cs \<and> D_tab tb (asg' v) v \<le> r"
    and "\<forall>c. int (length (serves t asg' c)) \<le> C"
proof -
  from c have
    g: "greedy srt tb C k r 0 (snd (init_loop t tb r)) [1..tree_n t] [] asg = Inr ([], cs, asg')"
    by (auto simp: check_def split: sum.splits)
  have fin: "finite (verts t)" by (simp add: verts_def)
  have e: "{v \<in> verts t. v \<notin> set [1..tree_n t] \<and> asg v = c} = {}" for c
    by (auto simp: verts_def)
  have i0: "ginv (verts t) tb C r [1..tree_n t] [] asg"
    unfolding ginv_def
  proof (intro conjI)
    show "set [1..tree_n t] \<subseteq> verts t" by (simp add: verts_def)
    show "distinct [1..tree_n t]" by simp
    show "set [] \<subseteq> verts t" by simp
    show "\<forall>v \<in> verts t - set [1..tree_n t]. asg v \<in> set [] \<and> D_tab tb (asg v) v \<le> r"
      by (simp add: verts_def)
    show "\<forall>c. card {v \<in> verts t. v \<notin> set [1..tree_n t] \<and> asg v = c} \<le> nat C"
      unfolding e by simp
  qed
  from greedy_inv[OF srt fin C g init_loop_distinct init_loop_verts _ i0]
  have i: "ginv (verts t) tb C r [] cs asg'" and l: "int (length cs) \<le> max 0 (k - 0)"
    by auto
  show "int (length cs) \<le> k" using l k by simp
  show "set cs \<subseteq> verts t" using i by (simp add: ginv_def)
  show "\<forall>v \<in> verts t. asg' v \<in> set cs \<and> D_tab tb (asg' v) v \<le> r"
    using i by (simp add: ginv_def)
  show "\<forall>c. int (length (serves t asg' c)) \<le> C"
  proof
    fix c
    have "length (serves t asg' c) = card ({v. asg' v = c} \<inter> set [1..tree_n t])"
      unfolding serves_def by (rule distinct_length_filter) simp
    also have "{v. asg' v = c} \<inter> set [1..tree_n t] = {v \<in> verts t. v \<notin> set [] \<and> asg' v = c}"
      by (auto simp: verts_def)
    also have "card \<dots> \<le> nat C" using i unfolding ginv_def by blast
    finally show "int (length (serves t asg' c)) \<le> C" using C by simp
  qed
qed

lemma tables_dist:
  fixes t :: "int tree"
  assumes T: "is_tree t" and tb: "tables_ok t tb" and a: "a \<in> verts t" and b: "b \<in> verts t"
  shows "\<exists>xs. path t a b xs \<and> D_tab tb a b = pw t xs" and "D_tab tb a b = D_tab tb b a"
proof -
  have adj: "adjacency_ok t" using T by (simp add: is_tree_def)
  from T a b obtain xs where xs: "path t a b xs" unfolding is_tree_def by blast
  have 1: "D_tab tb a b = pw t xs" using tb a b xs unfolding tables_ok_def by blast
  with xs show "\<exists>xs. path t a b xs \<and> D_tab tb a b = pw t xs" by blast
  have "path t b a (rev xs)" "pw t (rev xs) = pw t xs" using path_rev[OF adj xs a] by auto
  moreover have "D_tab tb b a = pw t (rev xs)"
    using tb a b \<open>path t b a (rev xs)\<close> unfolding tables_ok_def by blast
  ultimately show "D_tab tb a b = D_tab tb b a" using 1 by simp
qed

section \<open>The tree of one edge\<close>

lemma path_self:
  assumes "path t a a xs"
  shows "xs = [a]"
proof (cases xs)
  case Nil
  with assms show ?thesis by (simp add: path_def)
next
  case (Cons x ys)
  show ?thesis
  proof (cases ys)
    case Nil
    with Cons assms show ?thesis by (simp add: path_def)
  next
    case (Cons y zs)
    with \<open>xs = x # ys\<close> assms have "last (y # zs) = x" "x \<notin> set (y # zs)"
      by (auto simp: path_def)
    then show ?thesis using last_in_set[of "y # zs"] by auto
  qed
qed

lemma edge_tree_con:
  "tree_n edge_tree = 2"
  "tree_con edge_tree 1 = [(2, 1)]"
  "tree_con edge_tree 2 = [(1, 1)]"
  "verts edge_tree = {1, 2}"
  by (auto simp: edge_tree_def add_edge_def tree_new_def verts_def)

lemma edge_tree_path:
  assumes "path edge_tree a b xs" "a \<noteq> b" "a \<in> {1, 2}"
  shows "xs = [a, b]"
proof -
  from assms(1) obtain ys where xs: "xs = a # ys" by (cases xs) (auto simp: path_def)
  with assms(1,2) obtain y zs where ys: "ys = y # zs" by (cases ys) (auto simp: path_def)
  have y: "y \<in> {1, 2}" "y \<noteq> a"
    using assms(1,3) unfolding xs ys by (auto simp: path_def walk_def nbrs_def edge_tree_con)
  have "zs = []"
  proof (cases zs)
    case (Cons z ws)
    then have "z \<in> set (nbrs edge_tree y)" "z \<noteq> a"
      using assms(1) unfolding xs ys by (auto simp: path_def walk_def)
    with y assms(3) show ?thesis by (auto simp: nbrs_def edge_tree_con)
  qed simp
  with assms(1) show ?thesis unfolding xs ys by (simp add: path_def)
qed

lemma edge_tree_is_tree: "is_tree edge_tree"
  unfolding is_tree_def
proof (intro conjI ballI)
  show "1 \<le> tree_n edge_tree" by (simp add: edge_tree_con)
  show "adjacency_ok edge_tree"
    by (auto simp: adjacency_ok_def nbrs_def edge_tree_con)
next
  fix a b assume a: "a \<in> verts edge_tree" and b: "b \<in> verts edge_tree"
  show "\<exists>!xs. path edge_tree a b xs"
  proof (cases "a = b")
    case True
    then show ?thesis using path_single[of edge_tree a] path_self[of edge_tree a] by auto
  next
    case False
    have "path edge_tree a b [a, b]"
      using a b False by (auto simp: path_def walk_def nbrs_def edge_tree_con)
    moreover have "xs = [a, b]" if "path edge_tree a b xs" for xs
      using edge_tree_path[OF that False] a by (simp add: edge_tree_con)
    ultimately show ?thesis by blast
  qed
qed

lemma edge_tree_nonneg: "weights_nonneg edge_tree"
  by (auto simp: weights_nonneg_def edge_tree_con)

section \<open>The tree of the usage example\<close>

lemma usage_tree_con:
  "tree_n usage_tree = 4"
  "tree_con usage_tree 1 = [(2, 1), (3, 3), (4, 1)]"
  "tree_con usage_tree 2 = [(1, 1)]"
  "tree_con usage_tree 3 = [(1, 3)]"
  "tree_con usage_tree 4 = [(1, 1)]"
  "verts usage_tree = {1, 2, 3, 4}"
  by (auto simp: usage_tree_def add_edge_def tree_new_def verts_def)

lemma usage_nbrs:
  "a \<in> {2, 3, 4} \<Longrightarrow> set (nbrs usage_tree a) = {1}"
  "set (nbrs usage_tree 1) = {2, 3, 4}"
  by (auto simp: nbrs_def usage_tree_con)

text \<open>A path of the star that leaves a leaf goes to the centre, and a path that reaches
  a leaf from the centre ends there.\<close>

lemma star_from_centre:
  assumes "walk usage_tree (1 # ys)" "distinct (1 # ys)" "ys \<noteq> []"
  shows "ys = [last ys] \<and> last ys \<in> {2, 3, 4}"
proof -
  from assms(3) obtain y zs where ys: "ys = y # zs" by (cases ys) auto
  have y: "y \<in> {2, 3, 4}" using assms(1) usage_nbrs(2) unfolding ys by (auto simp: walk_def)
  have "zs = []"
  proof (cases zs)
    case (Cons z ws)
    then have "z \<in> set (nbrs usage_tree y)" using assms(1) unfolding ys by (simp add: walk_def)
    then have "z = 1" using usage_nbrs(1)[OF y] by simp
    with assms(2) Cons show ?thesis unfolding ys by simp
  qed simp
  with y show ?thesis unfolding ys by simp
qed

lemma usage_tree_path:
  assumes "path usage_tree a b xs" "a \<in> {1, 2, 3, 4}"
  shows "xs = (if a = b then [a] else if a = 1 \<or> b = 1 then [a, b] else [a, 1, b])"
proof (cases "a = b")
  case True
  then show ?thesis using path_self assms(1) by auto
next
  case False
  from assms(1) obtain ys where xs: "xs = a # ys" by (cases xs) (auto simp: path_def)
  with assms(1) False have ne: "ys \<noteq> []" by (auto simp: path_def)
  have w: "walk usage_tree (a # ys)" and d: "distinct (a # ys)" and l: "last ys = b"
    using assms(1) ne unfolding xs by (auto simp: path_def)
  show ?thesis
  proof (cases "a = 1")
    case True
    with star_from_centre[of ys] w d ne l False show ?thesis unfolding xs by auto
  next
    case a1: False
    then have a: "a \<in> {2, 3, 4}" using assms(2) by auto
    from ne obtain y zs where ys: "ys = y # zs" by (cases ys) auto
    have "y \<in> set (nbrs usage_tree a)" using w unfolding ys by (simp add: walk_def)
    then have y: "y = 1" using usage_nbrs(1)[OF a] by simp
    show ?thesis
    proof (cases "zs = []")
      case True
      with l y a1 False show ?thesis unfolding xs ys by auto
    next
      case zs: False
      have "walk usage_tree (1 # zs)" "distinct (1 # zs)"
        using w d unfolding ys y by (auto simp: walk_def)
      from star_from_centre[OF this zs] l zs d False show ?thesis unfolding xs ys y by auto
    qed
  qed
qed

lemma usage_tree_is_tree: "is_tree usage_tree"
  unfolding is_tree_def
proof (intro conjI ballI)
  show "1 \<le> tree_n usage_tree" by (simp add: usage_tree_con)
  show "adjacency_ok usage_tree"
    by (auto simp: adjacency_ok_def nbrs_def usage_tree_con)
next
  fix a b assume a: "a \<in> verts usage_tree" and b: "b \<in> verts usage_tree"
  let ?p = "if a = b then [a] else if a = 1 \<or> b = 1 then [a, b] else [a, 1, b]"
  have "path usage_tree a b ?p"
    using a b by (auto simp: path_def walk_def nbrs_def usage_tree_con)
  moreover have "xs = ?p" if "path usage_tree a b xs" for xs
    using usage_tree_path[OF that] a by (simp add: usage_tree_con)
  ultimately show "\<exists>!xs. path usage_tree a b xs" by blast
qed

lemma usage_tree_nonneg: "weights_nonneg usage_tree"
  by (auto simp: weights_nonneg_def usage_tree_con)

section \<open>Stores past the end of f\<close>

text \<open>On a tree, every call of \<^verbatim>\<open>check\<close> with a radius that is not negative stores
  \<^verbatim>\<open>f[n]\<close>, and \<open>n\<close> is not an index of \<^verbatim>\<open>f\<close>.\<close>

lemma fold_init_step_stores:
  "fst ` set (fst (fold (init_step tb r) js acc))
     = fst ` set (fst acc) \<union> {i \<in> set js. covering tb r i \<noteq> None}"
proof (induction js arbitrary: acc)
  case Nil
  then show ?case by simp
next
  case (Cons j js)
  have "fst ` set (fst (init_step tb r j acc))
          = fst ` set (fst acc) \<union> (if covering tb r j \<noteq> None then {j} else {})"
    by (auto simp: init_step_def split: option.splits)
  then show ?case using Cons.IH[of "init_step tb r j acc"] by auto
qed

lemma f_store_past_end:
  fixes t :: "int tree"
  assumes "is_tree t" "tables_ok t tb" "0 \<le> r"
  shows "tree_n t \<in> fst ` set (f_stores t tb r)" and "\<not> f_in_bounds t (tree_n t)"
proof -
  have n: "tree_n t \<in> verts t" using assms(1) by (simp add: is_tree_def verts_def)
  then have "covering tb r (tree_n t) \<noteq> None" using covering_Some[OF assms(2) _ assms(3)] by simp
  moreover have "tree_n t \<in> set [1..tree_n t]" using n by (simp add: verts_def)
  ultimately show "tree_n t \<in> fst ` set (f_stores t tb r)"
    unfolding f_stores_def init_loop_def fold_init_step_stores by simp
  show "\<not> f_in_bounds t (tree_n t)" by (simp add: f_in_bounds_def)
qed

text \<open>The same for the tables that the traversals of \<^verbatim>\<open>tree<int>\<close> compute, when the
  weights of the paths are within the type.\<close>

lemma f_store_past_end_run:
  fixes t :: "int tree"
  assumes "is_tree t" and "nat (tree_n t) \<le> fuel"
    and "\<And>a x xs. a \<in> verts t \<Longrightarrow> path t a x xs \<Longrightarrow> int_range (pw t xs)"
    and "0 \<le> r"
  shows "tree_n t \<in> fst ` set (f_stores t (tables_of wrap32 fuel t) r)"
proof -
  have "\<exists>tb. precompute wrap32 fuel t = Some tb \<and> tables_ok t tb"
    by (rule precompute_tree_int(1)[OF assms(1,2)]) (rule assms(3))
  then obtain tb where "precompute wrap32 fuel t = Some tb" "tables_ok t tb" by blast
  then show ?thesis using f_store_past_end(1)[OF assms(1) _ assms(4)] by (simp add: tables_of_def)
qed

text \<open>
  On the path of six vertices the first radius that the search tries is
  \<^verbatim>\<open>distances[7]\<close>, which is 2, and that call of \<^verbatim>\<open>check\<close> stores \<^verbatim>\<open>f[6]\<close> in a
  vector of six elements. The result of \<^verbatim>\<open>k_centers(3, 2)\<close> in the last line is the one
  of a run in which that store does no damage; a build that keeps other data right behind
  the elements of \<^verbatim>\<open>f\<close> does not reach it.
\<close>

lemma six_path_store:
  "at_index (distances (tables_of wrap32 6 six_path)) 7 = Inr 2 \<and>
   map fst (f_stores six_path (tables_of wrap32 6 six_path) 2) = [1, 2, 3, 4, 5, 6] \<and>
   \<not> f_in_bounds six_path 6 \<and>
   printed six_path (k_centers wrap32 gnu_sort 6 six_path 3 2) = Inr (4, [6, 1], [1, 1, 1, 6, 6, 6])"
  by code_simp

section \<open>The examples with the library sort and the wrap\<close>

text \<open>
  The calls of the claims below that are stated with the identity as conversion and with
  \<open>sort_stable\<close> give the same with \<open>wrap32\<close> and \<open>gnu_sort\<close>: the sums stay in
  the type, and the lists are short.
\<close>

lemma examples_library_sort:
  "printed usage_tree (k_centers wrap32 gnu_sort 4 usage_tree 3 2) = Inr (1, [3, 1], [1, 1, 3, 1])"
  "printed path_tree (k_centers wrap32 gnu_sort 3 path_tree 3 1) = Inr (2, [1], [1, 1, 1])"
  "printed edge_tree (k_centers wrap32 gnu_sort 2 edge_tree 1 2) = Inr (1, [1, 2], [2, 1])"
  "printed long_path_tree (k_centers wrap32 gnu_sort 4 long_path_tree 2 2) = Inr (2, [2, 1], [1, 2, 1, 2])"
  "answer (check gnu_sort long_path_tree (tables_of wrap32 4 long_path_tree) 2 2 2 (\<lambda>_. 0)) = Inr True"
  "answer (check gnu_sort long_path_tree (tables_of wrap32 4 long_path_tree) 2 2 3 (\<lambda>_. 0)) = Inr False"
  "printed half_tree (k_centers drop_fraction gnu_sort 2 half_tree 2 1) = Inr (0, [1], [1, 1])"
  "printed (tree_new 1) (k_centers wrap32 gnu_sort 1 (tree_new 1 :: int tree) 1 1) = Inl Index_out_of_range"
  by code_simp+

text \<open>
  The sum of the traversal wraps: on the path 1 - 2 - 3 with both weights 2000000000 the
  distance that is stored for the vertices 1 and 3 is \<open>- 294967296\<close>, and
  \<^verbatim>\<open>k_centers(3, 1)\<close> returns the radius 2000000000 with the vertex 3 assigned to the
  centre 1.
\<close>

lemma sum_wraps:
  "pw heavy_path [1, 2, 3] = 4000000000 \<and> \<not> int_range (pw heavy_path [1, 2, 3]) \<and>
   D_tab (tables_of wrap32 3 heavy_path) 1 3 = - 294967296 \<and>
   distances (tables_of wrap32 3 heavy_path) = [- 294967296, 2000000000, 2000000000] \<and>
   printed heavy_path (k_centers wrap32 gnu_sort 3 heavy_path 3 1) = Inr (2000000000, [1], [1, 1, 1])"
  by code_simp

text \<open>
  The product of the assertion. For \<open>k\<close> and \<open>C\<close> that are not negative, a product
  below \<open>n\<close> is within the type. With \<open>k = 2\<close> and \<open>C = - 2147483647\<close> the
  product wraps to 2, and the assertion holds on a tree of two vertices.
\<close>

lemma int_range_product:
  "0 \<le> k \<Longrightarrow> 0 \<le> C \<Longrightarrow> k * C < n \<Longrightarrow> int_range n \<Longrightarrow> int_range (k * C)"
  unfolding int_range_def using mult_nonneg_nonneg[of k C] by linarith

lemma product_wraps:
  "2 * (- 2147483647) < tree_n edge_tree \<and> \<not> int_range (2 * (- 2147483647)) \<and>
   wrap32 (2 * (- 2147483647)) = 2 \<and>
   printed edge_tree (k_centers wrap32 gnu_sort 2 edge_tree (- 2147483647) 2) = Inr (1, [1], [1, 1])"
  by code_simp

section \<open>The claims\<close>

text \<open>
  C1. The claim: for every tree and every \<open>k\<close>, \<open>C\<close> with \<open>k * C \<ge> n\<close>, the call
  returns at most \<open>k\<close> centres and an assignment with at most \<open>C\<close> vertices for a
  centre. On the tree of five vertices with \<open>C = 1\<close> and \<open>k = 6\<close> the assertion holds
  and the call returns nothing. The first radius that the search tries is
  \<^verbatim>\<open>distances[4]\<close>, which is 5. In \<^verbatim>\<open>check(5)\<close> the set \<^verbatim>\<open>st\<close> has the five entries
  \<open>(0, 1), \<dots>, (0, 5)\<close>; the rounds open the centres 1, 2, 3, 4, 5 and assign
  the vertices 2, 1, 5, 3 and none (the vertex 4 is at distance 6 from the centre 5).
  The vertex 4 is unassigned, \<open>iter = 5 < k\<close>, and the sixth round reads
  \<^verbatim>\<open>st.begin()\<close> of the empty set, which is the end iterator. No two vertices of this
  tree are at the same distance from the root, so the order that the sort gives is the
  only one.
\<close>

theorem candidates_used_up:
  "tree_n five_tree \<le> 6 * 1 \<and>
   distances (tables_of wrap32 5 five_tree) = [1, 2, 3, 4, 5, 5, 6, 7, 8, 9] \<and>
   map snd (snd (init_loop five_tree (tables_of wrap32 5 five_tree) 5)) = [1, 2, 3, 4, 5] \<and>
   answer (check gnu_sort five_tree (tables_of wrap32 5 five_tree) 1 6 5 (\<lambda>_. 0)) = Inl Empty_set_deref \<and>
   printed five_tree (k_centers wrap32 gnu_sort 5 five_tree 1 6) = Inl Empty_set_deref"
  by code_simp

text \<open>
  C2. The claim: the tree distance between a vertex and its centre \<^verbatim>\<open>assignment[v]\<close> is
  at most the returned radius. For \<^verbatim>\<open>tree<double>\<close> with the one edge of weight 0.5,
  \<^verbatim>\<open>k_centers(2, 1)\<close> returns the radius 0 and assigns the vertex 2 to the centre 1;
  the path between the two is the edge, of weight 0.5.
\<close>

theorem assigned_beyond_radius:
  "tree_n half_tree \<le> 1 * 2 \<and>
   printed half_tree (k_centers drop_fraction gnu_sort 2 half_tree 2 1) = Inr (0, [1], [1, 1]) \<and>
   path half_tree 1 2 [1, 2] \<and> pw half_tree [1, 2] = 1 / 2 \<and> \<not> pw half_tree [1, 2] \<le> 0"
  by code_simp

text \<open>
  C3. The claim: the least feasible radius is one of the distances \<open>D[i][j]\<close> with
  \<open>i < j\<close>, so the radius that \<^verbatim>\<open>k_centers\<close> returns is the optimum. On the path
  1 - 3 - 2 with weights 1, one centre of capacity 3 at the vertex 3 serves every vertex
  within distance 1, and 1 is in the list of distances; \<^verbatim>\<open>k_centers(3, 1)\<close> returns
  the radius 2. No two vertices of this tree are at the same distance from the root, so
  the order that the sort gives is the only one. On the tree of one edge with two
  centres allowed, each vertex can be its own centre at radius 0, which is not in the list
  of distances; \<^verbatim>\<open>k_centers(1, 2)\<close> returns the radius 1.
\<close>

theorem returned_radius_not_least:
  "printed path_tree (k_centers (\<lambda>x. x) sort_stable 3 path_tree 3 1) = Inr (2, [1], [1, 1, 1]) \<and>
   solves path_tree (D_tab (tables_of (\<lambda>x. x) 3 path_tree)) 3 1 1 [3] (\<lambda>_. 3) \<and>
   distances (tables_of (\<lambda>x. x) 3 path_tree) = [1, 1, 2] \<and>
   printed edge_tree (k_centers (\<lambda>x. x) sort_stable 2 edge_tree 1 2) = Inr (1, [1, 2], [2, 1]) \<and>
   solves edge_tree (D_tab (tables_of (\<lambda>x. x) 2 edge_tree)) 1 2 0 [1, 2] (\<lambda>v. v) \<and>
   distances (tables_of (\<lambda>x. x) 2 edge_tree) = [1]"
  by code_simp

text \<open>
  C4. The claim: \<^verbatim>\<open>check\<close> is monotone in the radius, and it accepts every radius from
  the returned one on. On the path 3 - 1 - 4 - 2 with weights 1, 2, 1 and \<open>C = 2\<close>,
  \<open>k = 2\<close>, \<^verbatim>\<open>check(2)\<close> is true and \<^verbatim>\<open>check(3)\<close> is false, and 2 is the radius
  that \<^verbatim>\<open>k_centers\<close> returns. The four vertices are at four different distances from the
  root.
\<close>

theorem check_not_monotone:
  "answer (check sort_stable long_path_tree (tables_of (\<lambda>x. x) 4 long_path_tree) 2 2 2 (\<lambda>_. 0)) = Inr True \<and>
   answer (check sort_stable long_path_tree (tables_of (\<lambda>x. x) 4 long_path_tree) 2 2 3 (\<lambda>_. 0)) = Inr False \<and>
   printed long_path_tree (k_centers (\<lambda>x. x) sort_stable 4 long_path_tree 2 2) = Inr (2, [2, 1], [1, 2, 1, 2])"
  by code_simp

text \<open>
  C5. When the product \<open>k * C\<close>, an \<^verbatim>\<open>int\<close>, is less than \<open>n\<close>, \<^verbatim>\<open>k_centers\<close>
  fails with the assertion, whatever the tree is, and nothing of the search has run: the
  result does not depend on the tables.
\<close>

theorem k_centers_rejects:
  "int_range (k * C) \<Longrightarrow> k * C < tree_n t \<Longrightarrow> k_centers cv srt fuel t C k = Inl Assertion_failed"
  by (simp add: k_centers_def wrap32_id)

theorem k_centers_rejects_witness:
  "int_range (1 * 3) \<and> (1::int) * 3 < tree_n usage_tree \<and>
   k_centers wrap32 gnu_sort 4 usage_tree 3 1 = Inl Assertion_failed"
proof -
  have r: "int_range (1 * 3)" by (simp add: int_range_def)
  have h: "(1::int) * 3 < tree_n usage_tree"
    by (simp add: usage_tree_def add_edge_def tree_new_def)
  from k_centers_rejects[OF r h] r h show ?thesis by blast
qed

text \<open>
  C6. The claim: no distance is converted to another type than the weight type. The
  table \<^verbatim>\<open>D\<close> holds \<^verbatim>\<open>int\<close>s and the traversal passes the distance through an \<^verbatim>\<open>int\<close>
  parameter. For \<^verbatim>\<open>tree<double>\<close> with the one edge of weight 0.5 the distance recorded
  between its two vertices is 0, and \<^verbatim>\<open>k_centers(2, 1)\<close> returns the radius 0 with
  the vertex 2 assigned to the centre 1.
\<close>

theorem distance_loses_fraction:
  "tree_con half_tree 1 = [(2, 1 / 2)] \<and>
   D_tab (tables_of drop_fraction 2 half_tree) 1 2 = 0 \<and>
   distances (tables_of drop_fraction 2 half_tree) = [0] \<and>
   printed half_tree (k_centers drop_fraction sort_stable 2 half_tree 2 1) = Inr (0, [1], [1, 1])"
  by code_simp

text \<open>
  C7, as the specification states it: in every round of the greedy loop the list
  \<^verbatim>\<open>reachable\<close> is in descending order of the distance from the root, and the vertices
  at the same distance keep the ascending order of their numbers. The code calls
  \<^verbatim>\<open>std::sort\<close>, which partitions a list of more than 16 elements. On the star of 17
  vertices, the round of \<^verbatim>\<open>check(2)\<close> that opens the centre 1 sorts all 17 vertices:
  the 16 leaves are at the distance 1 from the root, and the list starts with the leaf 9,
  followed by 17. With \<open>C = 9\<close> and \<open>k = 2\<close> the cut keeps the leaves 9 to 17 for
  the centre 1, where the ascending order would keep the leaves 2 to 10.
\<close>

theorem reachable_ties_counterexample:
  "reachable_sorted gnu_sort (tables_of wrap32 17 star_tree) 2 1 [1..17]
     = [9, 17, 16, 15, 14, 13, 12, 11, 10, 8, 7, 6, 5, 4, 3, 2, 1] \<and>
   \<not> ties_ascending (D_tab (tables_of wrap32 17 star_tree) root_vertex)
        [9, 17, 16, 15, 14, 13, 12, 11, 10, 8, 7, 6, 5, 4, 3, 2, 1] \<and>
   printed star_tree (k_centers wrap32 gnu_sort 17 star_tree 9 2)
     = Inr (2, [1, 2], [2, 2, 2, 2, 2, 2, 2, 2, 1, 1, 1, 1, 1, 1, 1, 1, 1])"
  by code_simp

text \<open>
  C7, amended: the sort of the GNU library meets the contract of \<^verbatim>\<open>std::sort\<close>; for
  every sort that meets it, the list \<^verbatim>\<open>reachable\<close> of a round is a rearrangement of the
  unassigned vertices within the radius of the centre, in descending order of the distance
  from the root; and with the sort of the GNU library, when at most 16 vertices are within
  the radius, the vertices at the same distance from the root keep the ascending order of
  their numbers.
\<close>

theorem reachable_sorted_descending:
  "std_sort_ok gnu_sort \<and>
   (std_sort_ok srt \<longrightarrow>
      mset (reachable_sorted srt tb radius center U)
        = mset (filter (\<lambda>it. of_int (D_tab tb center it) \<le> radius) U) \<and>
      sorted_wrt (\<lambda>a b. D_tab tb root_vertex a \<ge> D_tab tb root_vertex b)
        (reachable_sorted srt tb radius center U)) \<and>
   (sorted_wrt (<) U \<and> length (filter (\<lambda>it. of_int (D_tab tb center it) \<le> radius) U) \<le> 16 \<longrightarrow>
      ties_ascending (D_tab tb root_vertex) (reachable_sorted gnu_sort tb radius center U))"
proof (intro conjI impI)
  show "std_sort_ok gnu_sort" by (rule gnu_sort_ok)
next
  assume "std_sort_ok srt"
  then show "mset (reachable_sorted srt tb radius center U)
        = mset (filter (\<lambda>it. of_int (D_tab tb center it) \<le> radius) U)"
    and "sorted_wrt (\<lambda>a b. D_tab tb root_vertex a \<ge> D_tab tb root_vertex b)
        (reachable_sorted srt tb radius center U)"
    unfolding std_sort_ok_def reachable_sorted_def by (simp_all add: not_less)
next
  let ?xs = "filter (\<lambda>it. of_int (D_tab tb center it) \<le> radius) U"
  let ?key = "D_tab tb root_vertex"
  assume "sorted_wrt (<) U \<and> length ?xs \<le> 16"
  then have "sorted_wrt (<) ?xs" and "length ?xs \<le> 16" by (simp_all add: sorted_wrt_filter)
  from gnu_sort_short_before[OF this, of ?key]
  have b: "sorted_wrt (before ?key) (reachable_sorted gnu_sort tb radius center U)"
    by (simp add: reachable_sorted_def)
  show "ties_ascending ?key (reachable_sorted gnu_sort tb radius center U)"
    unfolding ties_ascending_def
    by (rule sorted_wrt_mono_rel[OF _ b]) (auto simp: before_def)
qed

theorem reachable_sorted_descending_witness:
  "std_sort_ok gnu_sort \<and> sorted_wrt (<) [1, 2, 4 :: int] \<and>
   length (filter (\<lambda>it. of_int (D_tab (tables_of wrap32 4 usage_tree) 1 it) \<le> (1::int)) [1, 2, 4]) \<le> 16 \<and>
   mset (reachable_sorted gnu_sort (tables_of wrap32 4 usage_tree) 1 1 [1, 2, 4])
     = mset (filter (\<lambda>it. of_int (D_tab (tables_of wrap32 4 usage_tree) 1 it) \<le> (1::int)) [1, 2, 4]) \<and>
   sorted_wrt (\<lambda>a b. D_tab (tables_of wrap32 4 usage_tree) root_vertex a
                      \<ge> D_tab (tables_of wrap32 4 usage_tree) root_vertex b)
     (reachable_sorted gnu_sort (tables_of wrap32 4 usage_tree) 1 1 [1, 2, 4]) \<and>
   ties_ascending (D_tab (tables_of wrap32 4 usage_tree) root_vertex)
     (reachable_sorted gnu_sort (tables_of wrap32 4 usage_tree) 1 1 [1, 2, 4]) \<and>
   reachable_sorted gnu_sort (tables_of wrap32 4 usage_tree) 1 1 [1, 2, 4] = [2, 4, 1]"
proof -
  have s: "sorted_wrt (<) [1, 2, 4 :: int]" by simp
  have l: "length (filter (\<lambda>it. of_int (D_tab (tables_of wrap32 4 usage_tree) 1 it) \<le> (1::int)) [1, 2, 4]) \<le> 16"
    by (rule order_trans[OF length_filter_le]) simp
  have v: "reachable_sorted gnu_sort (tables_of wrap32 4 usage_tree) 1 1 [1, 2, 4] = [2, 4, 1]"
    by code_simp
  from reachable_sorted_descending[of gnu_sort "tables_of wrap32 4 usage_tree" 1 1 "[1, 2, 4]"] s l
  have "std_sort_ok gnu_sort"
    and "mset (reachable_sorted gnu_sort (tables_of wrap32 4 usage_tree) 1 1 [1, 2, 4])
     = mset (filter (\<lambda>it. of_int (D_tab (tables_of wrap32 4 usage_tree) 1 it) \<le> (1::int)) [1, 2, 4])"
    and "sorted_wrt (\<lambda>a b. D_tab (tables_of wrap32 4 usage_tree) root_vertex a
                      \<ge> D_tab (tables_of wrap32 4 usage_tree) root_vertex b)
     (reachable_sorted gnu_sort (tables_of wrap32 4 usage_tree) 1 1 [1, 2, 4])"
    and "ties_ascending (D_tab (tables_of wrap32 4 usage_tree) root_vertex)
     (reachable_sorted gnu_sort (tables_of wrap32 4 usage_tree) 1 1 [1, 2, 4])"
    by blast+
  with s l v show ?thesis by blast
qed

text \<open>
  C8. The claim: every store \<^verbatim>\<open>f[i]\<close> of \<^verbatim>\<open>check\<close> is within the bounds of \<^verbatim>\<open>f\<close>.
  The vector has \<open>n\<close> elements and the loop stores at the indices 1 to \<open>n\<close>: in
  \<^verbatim>\<open>check(1)\<close> on the tree of the usage example the stores are at 1, 2, 3 and 4, and
  4 is not an index of a vector of 4 elements. (The lemma \<open>f_store_past_end\<close> has
  the same for every tree.)
\<close>

theorem f_store_out_of_bounds:
  "tree_n usage_tree = 4 \<and>
   f_stores usage_tree (tables_of (\<lambda>x. x) 4 usage_tree) 1 = [(1, 1), (2, 1), (3, 3), (4, 1)] \<and>
   \<not> f_in_bounds usage_tree 4"
  by code_simp

text \<open>
  C9. The claim: the list of distances is not empty and the search reads it within its
  bounds, also for the tree of one vertex. For that tree the list is empty, the loop of
  the search does not run, and the read \<^verbatim>\<open>distances[lo]\<close> with \<open>lo = 0\<close> is outside.
\<close>

theorem single_vertex_read_out_of_range:
  "distances (tables_of (\<lambda>x. x) 1 (tree_new 1 :: int tree)) = [] \<and>
   printed (tree_new 1) (k_centers (\<lambda>x. x) sort_stable 1 (tree_new 1 :: int tree) 1 1)
     = Inl Index_out_of_range"
  by code_simp

text \<open>
  C10. The set of candidates of a call of \<^verbatim>\<open>check\<close> holds at most one entry for a
  vertex, and the centres of a result of \<^verbatim>\<open>k_centers\<close> are pairwise different,
  whatever the input, the weight type and the sort are.
\<close>

theorem centers_distinct:
  "distinct (map snd (snd (init_loop t tb radius))) \<and>
   (k_centers cv srt fuel t C k = Inr (r, cs, asg) \<longrightarrow> distinct cs)"
  by (auto simp: init_loop_distinct dest: k_centers_distinct)

theorem centers_distinct_witness:
  "\<exists>asg. k_centers wrap32 gnu_sort 4 usage_tree 3 2 = Inr (1, [3, 1], asg) \<and>
     distinct [3, 1 :: int]"
proof -
  have "printed usage_tree (k_centers wrap32 gnu_sort 4 usage_tree 3 2)
          = Inr (1, [3, 1], [1, 1, 3, 1])"
    by code_simp
  then obtain asg where e: "k_centers wrap32 gnu_sort 4 usage_tree 3 2 = Inr (1, [3, 1], asg)"
    by (auto simp: printed_def split: sum.splits)
  from centers_distinct[of usage_tree tables_init 1 wrap32 gnu_sort 4 3 2 1 "[3, 1]" asg] e
  have "distinct [3, 1 :: int]" by blast
  with e show ?thesis by blast
qed

end
